theory Spec2Isabelle
  imports Main "HOL-Library.Sublist"
begin

section \<open>Strings\<close>

text \<open>
  JavaScript strings are modelled as \<^typ>\<open>string\<close>, read as the UTF-8 bytes of the
  text. \<open>s.startsWith(t)\<close> is \<^term>\<open>prefix t s\<close>, \<open>s.endsWith(t)\<close> is
  \<^term>\<open>suffix t s\<close> and \<open>s.includes(t)\<close> is \<^term>\<open>sublist t s\<close>.
\<close>

text \<open>\<open>s.split(c)\<close> for a one-character separator: never the empty list.\<close>

fun split_on :: "char \<Rightarrow> string \<Rightarrow> string list" where
  "split_on c [] = [[]]"
| "split_on c (x # xs) =
     (if x = c then [] # split_on c xs
      else (case split_on c xs of [] \<Rightarrow> [[x]] | s # ss \<Rightarrow> (x # s) # ss))"

text \<open>\<open>segs.join(c)\<close>.\<close>

fun join_with :: "char \<Rightarrow> string list \<Rightarrow> string" where
  "join_with c [] = []"
| "join_with c [s] = s"
| "join_with c (s # t # ss) = s @ c # join_with c (t # ss)"

text \<open>\<open>Buffer.from(s).toString("hex")\<close>: two lower-case hexadecimal digits per byte.\<close>

definition hex_digit :: "nat \<Rightarrow> char" where
  "hex_digit n = ''0123456789abcdef'' ! n"

definition hex_of_char :: "char \<Rightarrow> string" where
  "hex_of_char c = [hex_digit (of_char c div 16), hex_digit (of_char c mod 16)]"

definition hex_of_string :: "string \<Rightarrow> string" where
  "hex_of_string s = concat (map hex_of_char s)"

section \<open>The \<open>path\<close> module (POSIX flavour)\<close>

text \<open>
  The script calls \<open>path.join\<close>, \<open>path.dirname\<close>, \<open>path.relative\<close>,
  \<open>path.extname\<close>, \<open>path.resolve\<close> and \<open>path.sep\<close> of Node.js. They are modelled
  as \<open>path.posix\<close> computes them, on the list of \<open>/\<close>-separated segments.
\<close>

definition path_sep :: char where
  "path_sep = CHR ''/''"

text \<open>
  \<open>normalizeString\<close>: empty and \<open>.\<close> segments are dropped, \<open>..\<close> removes the segment
  before it; with nothing to remove it is kept when \<open>allowAboveRoot\<close> and dropped otherwise.
\<close>

fun norm_segs :: "bool \<Rightarrow> string list \<Rightarrow> string list \<Rightarrow> string list" where
  "norm_segs allowAboveRoot res [] = res"
| "norm_segs allowAboveRoot res (s # ss) =
     (if s = [] \<or> s = ''.'' then norm_segs allowAboveRoot res ss
      else if s = ''..'' then
        (if res \<noteq> [] \<and> last res \<noteq> ''..'' then norm_segs allowAboveRoot (butlast res) ss
         else if allowAboveRoot then norm_segs allowAboveRoot (res @ [''..'']) ss
         else norm_segs allowAboveRoot res ss)
      else norm_segs allowAboveRoot (res @ [s]) ss)"

definition posix_normalize :: "string \<Rightarrow> string" where
  "posix_normalize p =
     (if p = [] then ''.''
      else
        let isAbsolute = (hd p = CHR ''/'');
            trailingSeparator = (last p = CHR ''/'');
            q = join_with CHR ''/'' (norm_segs (\<not> isAbsolute) [] (split_on CHR ''/'' p))
        in if q = [] then (if isAbsolute then ''/'' else if trailingSeparator then ''./'' else ''.'')
           else (if isAbsolute then ''/'' else []) @ q @ (if trailingSeparator then ''/'' else []))"

text \<open>\<open>path.join(a, b)\<close>: the non-empty arguments joined by \<open>/\<close>, then normalised.\<close>

definition posix_join :: "string \<Rightarrow> string \<Rightarrow> string" where
  "posix_join a b =
     (let args = filter (\<lambda>s. s \<noteq> []) [a, b]
      in if args = [] then ''.'' else posix_normalize (join_with CHR ''/'' args))"

text \<open>
  \<open>path.resolve(a, b)\<close> for an absolute \<open>a\<close> (\<open>__dirname\<close> always is) and a relative
  \<open>b\<close>: the normalised segments behind one \<open>/\<close>, without a trailing separator.
\<close>

definition posix_resolve :: "string \<Rightarrow> string \<Rightarrow> string" where
  "posix_resolve a b =
     CHR ''/'' # join_with CHR ''/'' (norm_segs False [] (split_on CHR ''/'' a @ split_on CHR ''/'' b))"

text \<open>
  \<open>path.dirname(p)\<close>: scanning from the end down to index 1, the trailing separators and the
  last component are skipped; the path up to the separator found there is returned.
\<close>

definition posix_dirname :: "string \<Rightarrow> string" where
  "posix_dirname p =
     (if p = [] then ''.''
      else
        let hasRoot = (hd p = CHR ''/'');
            r = dropWhile (\<lambda>c. c \<noteq> CHR ''/'') (dropWhile (\<lambda>c. c = CHR ''/'') (rev (tl p)))
        in if r = [] then (if hasRoot then ''/'' else ''.'')
           else if hasRoot \<and> length r = 1 then ''//''
           else take (length r) p)"

text \<open>
  \<open>path.relative(from, to)\<close> for absolute arguments: both are resolved, the common leading
  segments are dropped, and one \<open>..\<close> per remaining segment of \<open>from\<close> is put before the
  remaining segments of \<open>to\<close>.
\<close>

fun drop_common :: "string list \<Rightarrow> string list \<Rightarrow> string list \<times> string list" where
  "drop_common (x # xs) (y # ys) = (if x = y then drop_common xs ys else (x # xs, y # ys))"
| "drop_common xs ys = (xs, ys)"

definition posix_relative :: "string \<Rightarrow> string \<Rightarrow> string" where
  "posix_relative from to =
     (if from = to then []
      else
        let fs = norm_segs False [] (split_on CHR ''/'' from);
            ts = norm_segs False [] (split_on CHR ''/'' to);
            (fs', ts') = drop_common fs ts
        in join_with CHR ''/'' (replicate (length fs') ''..'' @ ts'))"

text \<open>
  \<open>path.extname(p)\<close>: of the last component (trailing separators skipped), the part from
  its last dot on; empty when there is no dot, when the last dot is the component's first
  character, and when the component is \<open>..\<close>.
\<close>

definition last_component :: "string \<Rightarrow> string" where
  "last_component p =
     rev (takeWhile (\<lambda>c. c \<noteq> CHR ''/'') (dropWhile (\<lambda>c. c = CHR ''/'') (rev p)))"

definition posix_extname :: "string \<Rightarrow> string" where
  "posix_extname p =
     (let b = last_component p;
          e = rev (takeWhile (\<lambda>c. c \<noteq> CHR ''.'') (rev b))
      in if CHR ''.'' \<notin> set b then []
         else if length b = Suc (length e) then []
         else if b = ''..'' then []
         else CHR ''.'' # e)"

section \<open>URLs\<close>

text \<open>
  A parsed \<open>URL\<close> object of the URL Standard. \<open>query\<close> and \<open>fragment\<close> are absent
  (\<open>None\<close>) or present, possibly empty; the getters \<open>search\<close> and \<open>hash\<close> give the empty
  string in both of these cases and the component behind \<open>?\<close> or \<open>#\<close> otherwise.
\<close>

record url =
  protocol :: string
  has_authority :: bool
  userinfo :: string
  hostname :: string
  port :: string
  pathname :: string
  opaque_path :: bool
  query :: "string option"
  fragment :: "string option"

definition search :: "url \<Rightarrow> string" where
  "search u = (case query u of None \<Rightarrow> [] | Some q \<Rightarrow> (if q = [] then [] else CHR ''?'' # q))"

definition hash :: "url \<Rightarrow> string" where
  "hash u = (case fragment u of None \<Rightarrow> [] | Some f \<Rightarrow> (if f = [] then [] else CHR ''#'' # f))"

text \<open>\<open>u.toString()\<close>, the serialisation of the URL Standard.\<close>

definition href :: "url \<Rightarrow> string" where
  "href u =
     protocol u
     @ (if has_authority u
        then ''//'' @ (if userinfo u = [] then [] else userinfo u @ ''@'') @ hostname u
             @ (if port u = [] then [] else CHR '':'' # port u)
        else [])
     @ pathname u
     @ (case query u of None \<Rightarrow> [] | Some q \<Rightarrow> CHR ''?'' # q)
     @ (case fragment u of None \<Rightarrow> [] | Some f \<Rightarrow> CHR ''#'' # f)"

section \<open>The environment of a run\<close>

text \<open>
  What the script takes from outside: the built-ins \<open>new URL(input, base)\<close> and
  \<open>decodeURIComponent\<close> (\<open>None\<close> where they throw), the network behind \<open>fetch\<close>, the
  browser behind \<open>page\<close>, and the constants at the head of the script.
  \<open>toString_utf8\<close> is the text that reading a file as \<open>"utf8"\<close> makes of its bytes,
  given as the UTF-8 bytes of that text: the bytes themselves where they are well-formed,
  with U+FFFD in the place of every ill-formed sequence.
\<close>

record response =
  ok :: bool
  status :: nat
  arrayBuffer :: "string option"

record page =
  content :: string
  assets :: "string list"
  anchors :: "string list option"

record env =
  new_URL :: "string \<Rightarrow> string option \<Rightarrow> url option"
  decodeURIComponent :: "string \<Rightarrow> string option"
  toString_utf8 :: "string \<Rightarrow> string"
  fetchImpl :: "string \<Rightarrow> response option"
  goto :: "string \<Rightarrow> page option"
  script_dirname :: string
  START_URL :: string
  START_HOSTNAME :: string
  PATH_PREFIX :: string
  MAX_PAGES :: nat

definition OUTPUT_DIR :: "env \<Rightarrow> string" where
  "OUTPUT_DIR e = posix_resolve (script_dirname e) ''rendered-site''"

section \<open>\<open>urlToLocalPath\<close> and \<open>makeRelativeForHtml\<close>\<close>

text \<open>
  \<open>!ext && u.search\<close> holds when both strings are as tested: \<open>ext\<close> empty, \<open>u.search\<close>
  not empty. Every exception of the body gives \<open>null\<close>, here \<open>None\<close>.
\<close>

definition urlToLocalPath :: "env \<Rightarrow> string \<Rightarrow> string option" where
  "urlToLocalPath e url_str =
     (case new_URL e url_str None of
        None \<Rightarrow> None
      | Some u \<Rightarrow>
          (case decodeURIComponent e (pathname u) of
             None \<Rightarrow> None
           | Some p \<Rightarrow>
               let p = (if suffix ''/'' p then p @ ''index'' else p);
                   p = (if prefix ''/'' p then drop 1 p else p);
                   ext = posix_extname p;
                   p = (if ext = [] \<and> search u \<noteq> [] then p @ ''_'' @ hex_of_string (search u) else p)
               in Some (posix_join (OUTPUT_DIR e) p)))"

definition makeRelativeForHtml :: "string \<Rightarrow> string \<Rightarrow> string" where
  "makeRelativeForHtml htmlFilePath assetLocalPath =
     (let rel = posix_relative (posix_dirname htmlFilePath) assetLocalPath
      in join_with CHR ''/'' (split_on path_sep rel))"

section \<open>The file system\<close>

text \<open>
  Regular files with their contents, and the directories that exist. \<open>mkdirSync\<close> with
  \<open>recursive\<close> creates the directory and its missing parents and throws when one of
  them is a regular file; \<open>writeFileSync\<close> throws on a directory and under a missing
  parent; \<open>readFileSync\<close> throws on anything but a regular file. \<open>None\<close> is the throw.
  Permissions and capacity are not modelled.
\<close>

record filesystem =
  files :: "string \<Rightarrow> string option"
  dirs :: "string set"

definition existsSync :: "filesystem \<Rightarrow> string \<Rightarrow> bool" where
  "existsSync fs p \<longleftrightarrow> files fs p \<noteq> None \<or> p \<in> dirs fs"

definition ancestors :: "string \<Rightarrow> string list" where
  "ancestors d =
     (let segs = filter (\<lambda>s. s \<noteq> []) (split_on CHR ''/'' d)
      in map (\<lambda>n. CHR ''/'' # join_with CHR ''/'' (take n segs)) [1..<Suc (length segs)])"

definition mkdirSync_recursive :: "filesystem \<Rightarrow> string \<Rightarrow> filesystem option" where
  "mkdirSync_recursive fs d =
     (if \<exists>a\<in>set (ancestors d). files fs a \<noteq> None then None
      else Some (fs\<lparr>dirs := dirs fs \<union> set (ancestors d)\<rparr>))"

definition ensureDir :: "filesystem \<Rightarrow> string \<Rightarrow> filesystem option" where
  "ensureDir fs filePath = mkdirSync_recursive fs (posix_dirname filePath)"

definition writeFileSync :: "filesystem \<Rightarrow> string \<Rightarrow> string \<Rightarrow> filesystem option" where
  "writeFileSync fs p data =
     (if p \<in> dirs fs then None
      else if posix_dirname p \<noteq> ''/'' \<and> posix_dirname p \<notin> dirs fs then None
      else Some (fs\<lparr>files := (files fs)(p \<mapsto> data)\<rparr>))"

definition readFileSync :: "filesystem \<Rightarrow> string \<Rightarrow> string option" where
  "readFileSync fs p = files fs p"

section \<open>The state of a run\<close>

text \<open>
  The disk, the URLs handed to \<open>fetch\<close> so far (in order), and the three collections of
  the main function. A JavaScript \<open>Set\<close> is the list of its elements in insertion order;
  \<open>size\<close> is its length. The per-page object \<open>urlToLocal\<close> is an association list in
  insertion order: assigning to a key it has replaces the value in place.
\<close>

record state =
  disk :: filesystem
  fetched :: "string list"
  assetsDownloaded :: "string list"
  visited :: "string list"
  toVisit :: "string list"

definition set_add :: "'a \<Rightarrow> 'a list \<Rightarrow> 'a list" where
  "set_add x xs = (if x \<in> set xs then xs else xs @ [x])"

fun obj_assign :: "string \<Rightarrow> string \<Rightarrow> (string \<times> string) list \<Rightarrow> (string \<times> string) list" where
  "obj_assign k v [] = [(k, v)]"
| "obj_assign k v ((k', v') # m) = (if k' = k then (k, v) # m else (k', v') # obj_assign k v m)"

section \<open>\<open>downloadAndSave\<close>\<close>

definition downloadAndSave :: "env \<Rightarrow> string \<Rightarrow> string \<Rightarrow> state \<Rightarrow> bool \<times> state" where
  "downloadAndSave e url_str assetLocalPath s =
     (if url_str = [] \<or> assetLocalPath = [] then (False, s)
      else if prefix ''data:'' url_str then (False, s)
      else if existsSync (disk s) assetLocalPath then (True, s)
      else
        let s = s\<lparr>fetched := fetched s @ [url_str]\<rparr> in
        (case fetchImpl e url_str of
           None \<Rightarrow> (False, s)
         | Some res \<Rightarrow>
             if \<not> ok res then (False, s)
             else
               (case arrayBuffer res of
                  None \<Rightarrow> (False, s)
                | Some buffer \<Rightarrow>
                    (case ensureDir (disk s) assetLocalPath of
                       None \<Rightarrow> (False, s)
                     | Some d \<Rightarrow>
                         (case writeFileSync d assetLocalPath buffer of
                            None \<Rightarrow> (False, s\<lparr>disk := d\<rparr>)
                          | Some d' \<Rightarrow> (True, s\<lparr>disk := d'\<rparr>))))))"

section \<open>\<open>normalize\<close>\<close>

text \<open>
  \<open>u.hash = ""\<close> removes the fragment. The \<open>pathname\<close> setter leaves a URL with an
  opaque path as it is; the value assigned here is the old path with its trailing slashes
  collapsed, which the setter's parser keeps unchanged.
\<close>

definition collapse_trailing_slashes :: "string \<Rightarrow> string" where
  "collapse_trailing_slashes p = rev (dropWhile (\<lambda>c. c = CHR ''/'') (rev p)) @ ''/''"

definition set_pathname :: "url \<Rightarrow> string \<Rightarrow> url" where
  "set_pathname u v = (if opaque_path u then u else u\<lparr>pathname := v\<rparr>)"

definition normalize :: "env \<Rightarrow> string \<Rightarrow> string option" where
  "normalize e url_str =
     (case new_URL e url_str (Some (START_URL e)) of
        None \<Rightarrow> None
      | Some u \<Rightarrow>
          let u = u\<lparr>fragment := None\<rparr>;
              u = (if suffix ''/'' (pathname u) \<and> pathname u \<noteq> ''/''
                   then set_pathname u (collapse_trailing_slashes (pathname u)) else u)
          in Some (href u))"

section \<open>Rewriting the HTML\<close>

text \<open>
  \<open>String.prototype.replace\<close> with a string as replacement expands \<open>$$\<close>, \<open>$&\<close>,
  \<open>$`\<close> and \<open>$'\<close> in it (to \<open>$\<close>, the match, the text before and the text after the
  match); the patterns here have no capture group, so every other \<open>$\<close> stands for itself.
\<close>

fun get_substitution :: "string \<Rightarrow> string \<Rightarrow> string \<Rightarrow> string \<Rightarrow> string" where
  "get_substitution matched preceding following [] = []"
| "get_substitution matched preceding following (c # rest) =
     (if c = CHR ''$'' then
        (case rest of
           [] \<Rightarrow> ''$''
         | d # rest' \<Rightarrow>
             if d = CHR ''$'' then CHR ''$'' # get_substitution matched preceding following rest'
             else if d = CHR ''&'' then matched @ get_substitution matched preceding following rest'
             else if d = CHR 0x60 then preceding @ get_substitution matched preceding following rest'
             else if d = CHR 0x27 then following @ get_substitution matched preceding following rest'
             else CHR ''$'' # get_substitution matched preceding following rest)
      else c # get_substitution matched preceding following rest)"

text \<open>
  \<open>text.replace(new RegExp(escaped, "g"), replacement)\<close>, where \<open>escaped\<close> is the pattern
  with every regular-expression metacharacter escaped: the matches are the occurrences of
  the pattern as a literal string, from the left, not overlapping. \<open>preceding\<close> is the text
  left of the current position. An empty pattern matches at every position.
\<close>

function replace_from :: "string \<Rightarrow> string \<Rightarrow> string \<Rightarrow> string \<Rightarrow> string" where
  "replace_from pat replacement preceding str =
     (if pat = [] then
        get_substitution [] preceding str replacement
        @ (case str of [] \<Rightarrow> [] | c # cs \<Rightarrow> c # replace_from pat replacement (preceding @ [c]) cs)
      else if str = [] then []
      else if prefix pat str then
        get_substitution pat preceding (drop (length pat) str) replacement
        @ replace_from pat replacement (preceding @ pat) (drop (length pat) str)
      else hd str # replace_from pat replacement (preceding @ [hd str]) (tl str))"
  by pat_completeness auto
termination
  by (relation "measure (\<lambda>(pat, replacement, preceding, str). length str)") auto

declare replace_from.simps [simp del]

definition replace_global :: "string \<Rightarrow> string \<Rightarrow> string \<Rightarrow> string" where
  "replace_global pat replacement str = replace_from pat replacement [] str"

text \<open>
  The loop over \<open>Object.entries(urlToLocal)\<close>. \<open>new URL(origUrl)\<close> throws where the
  parser fails (\<open>None\<close>); the exception leaves the loop.
\<close>

fun rewrite_html :: "env \<Rightarrow> string \<Rightarrow> (string \<times> string) list \<Rightarrow> string \<Rightarrow> string option" where
  "rewrite_html e htmlFilePath [] html = Some html"
| "rewrite_html e htmlFilePath ((origUrl, localFullPath) # entries) html =
     (let rel = makeRelativeForHtml htmlFilePath localFullPath;
          html = replace_global origUrl rel html
      in case new_URL e origUrl None of
           None \<Rightarrow> None
         | Some u \<Rightarrow>
             let originLess = ''//'' @ hostname u @ pathname u @ search u;
                 html = replace_global originLess rel html
             in rewrite_html e htmlFilePath entries html)"

text \<open>The path of the page's own file (lines 229 to 233).\<close>

definition html_file_path :: "env \<Rightarrow> string \<Rightarrow> string option" where
  "html_file_path e nurl =
     (case new_URL e nurl None of
        None \<Rightarrow> None
      | Some u \<Rightarrow>
          let htmlFilePath = pathname u;
              htmlFilePath = (if suffix ''/'' htmlFilePath then htmlFilePath @ ''index.html'' else htmlFilePath);
              htmlFilePath = (if htmlFilePath = ''/'' then ''/index.html'' else htmlFilePath)
          in (case decodeURIComponent e (drop 1 htmlFilePath) of
                None \<Rightarrow> None
              | Some d \<Rightarrow> Some (posix_join (OUTPUT_DIR e) d)))"

section \<open>Downloading the assets of a page\<close>

text \<open>
  The loop of lines 202 to 225 over the asset URLs the page reported, on the pair of the
  state and the page's \<open>urlToLocal\<close>. An asset whose URL does not parse or has no local
  path is skipped.
\<close>

definition download_asset :: "env \<Rightarrow> string \<Rightarrow> state \<times> (string \<times> string) list
    \<Rightarrow> state \<times> (string \<times> string) list" where
  "download_asset e assetUrl sm =
     (let (s, urlToLocal) = sm in
      case new_URL e assetUrl None of
        None \<Rightarrow> (s, urlToLocal)
      | Some parsed \<Rightarrow>
          (case urlToLocalPath e assetUrl of
             None \<Rightarrow> (s, urlToLocal)
           | Some localPath \<Rightarrow>
               if localPath = [] then (s, urlToLocal)
               else
                 let already = (assetUrl \<in> set (assetsDownloaded s));
                     (ok, s) = (if already then (True, s) else downloadAndSave e assetUrl localPath s)
                 in if ok
                    then (s\<lparr>assetsDownloaded := set_add assetUrl (assetsDownloaded s)\<rparr>,
                          obj_assign assetUrl localPath urlToLocal)
                    else (s, urlToLocal)))"

fun download_assets :: "env \<Rightarrow> string list \<Rightarrow> state \<times> (string \<times> string) list
    \<Rightarrow> state \<times> (string \<times> string) list" where
  "download_assets e [] sm = sm"
| "download_assets e (assetUrl # rest) sm = download_assets e rest (download_asset e assetUrl sm)"

section \<open>Scanning the style sheets\<close>

text \<open>\<open>u.match(/\.css($|\?)/i)\<close>: somewhere \<open>.css\<close>, in either case, then the end or \<open>?\<close>.\<close>

fun is_css_url :: "string \<Rightarrow> bool" where
  "is_css_url [] = False"
| "is_css_url (c # cs) =
     ((c = CHR ''.''
       \<and> (case cs of
            c1 # c2 # c3 # cs' \<Rightarrow>
              (c1 = CHR ''c'' \<or> c1 = CHR ''C'') \<and> (c2 = CHR ''s'' \<or> c2 = CHR ''S'')
              \<and> (c3 = CHR ''s'' \<or> c3 = CHR ''S'') \<and> (cs' = [] \<or> hd cs' = CHR ''?'')
          | _ \<Rightarrow> False))
      \<or> is_css_url cs)"

text \<open>
  \<open>matchAll(/url\((['"]?)(.*?)\1\)/g)\<close>. At a position that starts with \<open>url(\<close> the
  quoted reading is tried first (a quote, the shortest text without a line terminator up
  to the same quote and \<open>)\<close>), then the unquoted one (the shortest such text up to
  \<open>)\<close>). The result has the whole match \<open>m[0]\<close> and the reference \<open>m[2]\<close>; the search
  goes on behind the match.
\<close>

definition line_terminator_at :: "string \<Rightarrow> bool" where
  "line_terminator_at t \<longleftrightarrow>
     prefix [CHR 0x0A] t \<or> prefix [CHR 0x0D] t
     \<or> prefix [CHR 0xE2, CHR 0x80, CHR 0xA8] t \<or> prefix [CHR 0xE2, CHR 0x80, CHR 0xA9] t"

fun lazy_until :: "string \<Rightarrow> string \<Rightarrow> string option" where
  "lazy_until closer [] = (if closer = [] then Some [] else None)"
| "lazy_until closer (c # cs) =
     (if prefix closer (c # cs) then Some []
      else if line_terminator_at (c # cs) then None
      else map_option ((#) c) (lazy_until closer cs))"

definition match_url_at :: "string \<Rightarrow> (string \<times> string) option" where
  "match_url_at t =
     (if \<not> prefix ''url('' t then None
      else
        let rest = drop 4 t;
            quoted =
              (case rest of
                 [] \<Rightarrow> None
               | q # r \<Rightarrow>
                   if q = CHR 0x27 \<or> q = CHR 0x22
                   then map_option (\<lambda>b. (''url('' @ [q] @ b @ [q] @ '')'', b)) (lazy_until [q, CHR '')''] r)
                   else None)
        in (case quoted of
              Some m \<Rightarrow> Some m
            | None \<Rightarrow> map_option (\<lambda>b. (''url('' @ b @ '')'', b)) (lazy_until '')'' rest)))"

fun matchAll_url :: "nat \<Rightarrow> string \<Rightarrow> (string \<times> string) list" where
  "matchAll_url skip [] = []"
| "matchAll_url skip (c # cs) =
     (if 0 < skip then matchAll_url (skip - 1) cs
      else (case match_url_at (c # cs) of
              None \<Rightarrow> matchAll_url 0 cs
            | Some (m0, m2) \<Rightarrow> (m0, m2) # matchAll_url (length m0 - 1) cs))"

text \<open>\<open>s.split(sep)\<close> for a string separator and \<open>segs.join(r)\<close>.\<close>

function split_string :: "string \<Rightarrow> string \<Rightarrow> string list" where
  "split_string sep str =
     (if sep = [] then map (\<lambda>c. [c]) str
      else if str = [] then [[]]
      else if prefix sep str then [] # split_string sep (drop (length sep) str)
      else (case split_string sep (tl str) of
              [] \<Rightarrow> [[hd str]]
            | s # ss \<Rightarrow> (hd str # s) # ss))"
  by pat_completeness auto
termination
  by (relation "measure (\<lambda>(sep, str). length str)") auto

declare split_string.simps [simp del]

fun join_string :: "string \<Rightarrow> string list \<Rightarrow> string" where
  "join_string r [] = []"
| "join_string r [s] = s"
| "join_string r (s # t # ss) = s @ r @ join_string r (t # ss)"

text \<open>
  One \<open>url(...)\<close> match of a style sheet (the body of the loop of lines 263 to 288), on
  the state, \<open>urlToLocal\<close> and \<open>cssText\<close>. \<open>path.relative\<close> throws on the \<open>undefined\<close>
  that \<open>urlToLocal[abs]\<close> gives for a URL the page's object does not have; every
  exception is swallowed by the inner \<open>try\<close>.
\<close>

definition css_rewrite :: "string \<Rightarrow> string \<Rightarrow> string \<Rightarrow> string \<Rightarrow> string" where
  "css_rewrite cssLocal localFull m0 cssText =
     (let relForCss = join_with CHR ''/'' (split_on path_sep (posix_relative (posix_dirname cssLocal) localFull))
      in join_string (''url('' @ [CHR 0x22] @ relForCss @ [CHR 0x22] @ '')'') (split_string m0 cssText))"

definition css_ref :: "env \<Rightarrow> string \<Rightarrow> string \<Rightarrow> string \<times> string
    \<Rightarrow> state \<times> (string \<times> string) list \<times> string \<Rightarrow> state \<times> (string \<times> string) list \<times> string" where
  "css_ref e cssUrl cssLocal m smt =
     (let (m0, ref) = m; (s, urlToLocal, cssText) = smt in
      if ref = [] then (s, urlToLocal, cssText)
      else
        (case new_URL e ref (Some cssUrl) of
           None \<Rightarrow> (s, urlToLocal, cssText)
         | Some u \<Rightarrow>
             let abs = href u in
             if abs \<in> set (assetsDownloaded s) then
               (case map_of urlToLocal abs of
                  None \<Rightarrow> (s, urlToLocal, cssText)
                | Some localFull \<Rightarrow> (s, urlToLocal, css_rewrite cssLocal localFull m0 cssText))
             else
               (case urlToLocalPath e abs of
                  None \<Rightarrow> (s, urlToLocal, cssText)
                | Some localFull \<Rightarrow>
                    if localFull = [] then (s, urlToLocal, cssText)
                    else
                      let (ok, s) = downloadAndSave e abs localFull s in
                      if ok
                      then (s\<lparr>assetsDownloaded := set_add abs (assetsDownloaded s)\<rparr>,
                            obj_assign abs localFull urlToLocal,
                            css_rewrite cssLocal localFull m0 cssText)
                      else (s, urlToLocal, cssText))))"

fun css_refs :: "env \<Rightarrow> string \<Rightarrow> string \<Rightarrow> (string \<times> string) list
    \<Rightarrow> state \<times> (string \<times> string) list \<times> string \<Rightarrow> state \<times> (string \<times> string) list \<times> string" where
  "css_refs e cssUrl cssLocal [] smt = smt"
| "css_refs e cssUrl cssLocal (m # ms) smt = css_refs e cssUrl cssLocal ms (css_ref e cssUrl cssLocal m smt)"

text \<open>
  One style sheet (the body of the loop of lines 257 to 293): read as UTF-8, scan, rewrite,
  write back as UTF-8. A failing read skips the sheet; a failing write is swallowed too.
\<close>

definition scan_css :: "env \<Rightarrow> string \<Rightarrow> state \<times> (string \<times> string) list
    \<Rightarrow> state \<times> (string \<times> string) list" where
  "scan_css e cssUrl sm =
     (let (s, urlToLocal) = sm in
      case map_of urlToLocal cssUrl of
        None \<Rightarrow> (s, urlToLocal)
      | Some cssLocal \<Rightarrow>
          (case readFileSync (disk s) cssLocal of
             None \<Rightarrow> (s, urlToLocal)
           | Some bytes \<Rightarrow>
               let cssText = toString_utf8 e bytes;
                   matches = matchAll_url 0 cssText;
                   (s, urlToLocal, cssText) = css_refs e cssUrl cssLocal matches (s, urlToLocal, cssText)
               in (case writeFileSync (disk s) cssLocal cssText of
                     None \<Rightarrow> (s, urlToLocal)
                   | Some d \<Rightarrow> (s\<lparr>disk := d\<rparr>, urlToLocal))))"

fun scan_css_files :: "env \<Rightarrow> string list \<Rightarrow> state \<times> (string \<times> string) list
    \<Rightarrow> state \<times> (string \<times> string) list" where
  "scan_css_files e [] sm = sm"
| "scan_css_files e (cssUrl # rest) sm = scan_css_files e rest (scan_css e cssUrl sm)"

section \<open>Visiting a page\<close>

text \<open>One anchor of the page (the body of the loop of lines 299 to 311).\<close>

definition enqueue_link :: "env \<Rightarrow> string \<Rightarrow> string \<Rightarrow> state \<Rightarrow> state" where
  "enqueue_link e nurl a s =
     (case new_URL e a (Some nurl) of
        None \<Rightarrow> s
      | Some u \<Rightarrow>
          let abs = href u in
          (case new_URL e abs None of
             None \<Rightarrow> s
           | Some absObj \<Rightarrow>
               if hostname absObj = START_HOSTNAME e \<and> prefix (PATH_PREFIX e) (pathname absObj)
               then
                 (case normalize e abs of
                    None \<Rightarrow> s
                  | Some norm \<Rightarrow>
                      if norm \<noteq> [] \<and> norm \<notin> set (visited s) \<and> norm \<notin> set (toVisit s)
                      then s\<lparr>toVisit := toVisit s @ [norm]\<rparr>
                      else s)
               else s))"

fun enqueue_links :: "env \<Rightarrow> string \<Rightarrow> string list \<Rightarrow> state \<Rightarrow> state" where
  "enqueue_links e nurl [] s = s"
| "enqueue_links e nurl (a # rest) s = enqueue_links e nurl rest (enqueue_link e nurl a s)"

text \<open>
  The \<open>try\<close> block of lines 128 to 311: \<open>Inr\<close> when it runs to its end, \<open>Inl\<close> with
  the state reached when something in it throws: the navigation, the page's own path,
  the rewriting, saving the HTML, or reading the anchors.
\<close>

definition try_visit :: "env \<Rightarrow> string \<Rightarrow> state \<Rightarrow> state + state" where
  "try_visit e nurl s =
     (case goto e nurl of
        None \<Rightarrow> Inl s
      | Some pg \<Rightarrow>
          let (s, urlToLocal) = download_assets e (assets pg) (s, []) in
          (case html_file_path e nurl of
             None \<Rightarrow> Inl s
           | Some htmlFilePath \<Rightarrow>
               (case rewrite_html e htmlFilePath urlToLocal (content pg) of
                  None \<Rightarrow> Inl s
                | Some html \<Rightarrow>
                    (case ensureDir (disk s) htmlFilePath of
                       None \<Rightarrow> Inl s
                     | Some d \<Rightarrow>
                         (case writeFileSync d htmlFilePath html of
                            None \<Rightarrow> Inl (s\<lparr>disk := d\<rparr>)
                          | Some d' \<Rightarrow>
                              let s = s\<lparr>disk := d'\<rparr>;
                                  cssUrls = filter is_css_url (map fst urlToLocal);
                                  (s, urlToLocal) = scan_css_files e cssUrls (s, urlToLocal);
                                  s = s\<lparr>visited := set_add nurl (visited s)\<rparr>
                              in (case anchors pg of
                                    None \<Rightarrow> Inl s
                                  | Some hrefs \<Rightarrow> Inr (enqueue_links e nurl hrefs s)))))))"

text \<open>The \<open>try\<close> with its \<open>catch\<close>, which adds the URL to \<open>visited\<close>.\<close>

definition visit :: "env \<Rightarrow> string \<Rightarrow> state \<Rightarrow> state" where
  "visit e nurl s =
     (case try_visit e nurl s of
        Inr s' \<Rightarrow> s'
      | Inl s' \<Rightarrow> s'\<lparr>visited := set_add nurl (visited s')\<rparr>)"

section \<open>The main loop\<close>

text \<open>One turn of the \<open>while\<close> loop of lines 122 to 316, entered with a non-empty queue.\<close>

definition iteration :: "env \<Rightarrow> state \<Rightarrow> state" where
  "iteration e s =
     (let url_str = hd (toVisit s);
          s = s\<lparr>toVisit := tl (toVisit s)\<rparr>
      in case normalize e url_str of
           None \<Rightarrow> s
         | Some nurl \<Rightarrow> if nurl = [] \<or> nurl \<in> set (visited s) then s else visit e nurl s)"

text \<open>The collections as the main function creates them (lines 104 to 106).\<close>

definition initial_state :: "env \<Rightarrow> filesystem \<Rightarrow> state" where
  "initial_state e d =
     \<lparr>disk = d, fetched = [], assetsDownloaded = [], visited = [], toVisit = [START_URL e]\<rparr>"

text \<open>
  What the steps of a visit leave alone: downloads and the scan of the style sheets do
  not touch \<open>visited\<close> or \<open>toVisit\<close>, and a visit adds its URL to \<open>visited\<close>
  whether it throws or not.
\<close>

lemma downloadAndSave_frame:
  "downloadAndSave e u lp s = (b, s') \<Longrightarrow>
   visited s' = visited s \<and> toVisit s' = toVisit s \<and> assetsDownloaded s' = assetsDownloaded s"
  by (auto simp: downloadAndSave_def Let_def split: option.splits if_splits)

lemma download_asset_frame:
  "download_asset e u (s, m) = (s', m') \<Longrightarrow> visited s' = visited s \<and> toVisit s' = toVisit s"
  by (auto simp: download_asset_def Let_def split: option.splits prod.splits if_splits
           dest!: downloadAndSave_frame)

lemma download_assets_frame:
  "download_assets e us (s, m) = (s', m') \<Longrightarrow> visited s' = visited s \<and> toVisit s' = toVisit s"
proof (induction us arbitrary: s m)
  case Nil
  then show ?case by simp
next
  case (Cons u us)
  obtain s1 m1 where 1: "download_asset e u (s, m) = (s1, m1)" by (cases "download_asset e u (s, m)")
  with Cons.prems have "download_assets e us (s1, m1) = (s', m')" by simp
  from Cons.IH[OF this] download_asset_frame[OF 1] show ?case by simp
qed

lemma css_ref_frame:
  "css_ref e cu cl (m0, r) (s, ul, ct) = (s', ul', ct') \<Longrightarrow>
   visited s' = visited s \<and> toVisit s' = toVisit s"
  by (auto simp: css_ref_def Let_def split: option.splits prod.splits if_splits
           dest!: downloadAndSave_frame)

lemma css_refs_frame:
  "css_refs e cu cl ms (s, ul, ct) = (s', ul', ct') \<Longrightarrow>
   visited s' = visited s \<and> toVisit s' = toVisit s"
proof (induction ms arbitrary: s ul ct)
  case Nil
  then show ?case by simp
next
  case (Cons m ms)
  obtain m0 r where m: "m = (m0, r)" by (cases m)
  obtain s1 ul1 ct1 where 1: "css_ref e cu cl (m0, r) (s, ul, ct) = (s1, ul1, ct1)"
    by (cases "css_ref e cu cl (m0, r) (s, ul, ct)")
  with Cons.prems m have "css_refs e cu cl ms (s1, ul1, ct1) = (s', ul', ct')" by simp
  from Cons.IH[OF this] css_ref_frame[OF 1] show ?case by simp
qed

lemma scan_css_frame:
  "scan_css e cu (s, ul) = (s', ul') \<Longrightarrow> visited s' = visited s \<and> toVisit s' = toVisit s"
  by (auto simp: scan_css_def Let_def split: option.splits prod.splits
           dest!: css_refs_frame)

lemma scan_css_files_frame:
  "scan_css_files e cus (s, ul) = (s', ul') \<Longrightarrow> visited s' = visited s \<and> toVisit s' = toVisit s"
proof (induction cus arbitrary: s ul)
  case Nil
  then show ?case by simp
next
  case (Cons cu cus)
  obtain s1 ul1 where 1: "scan_css e cu (s, ul) = (s1, ul1)" by (cases "scan_css e cu (s, ul)")
  with Cons.prems have "scan_css_files e cus (s1, ul1) = (s', ul')" by simp
  from Cons.IH[OF this] scan_css_frame[OF 1] show ?case by simp
qed

lemma enqueue_link_visited: "visited (enqueue_link e nurl a s) = visited s"
  by (simp add: enqueue_link_def Let_def split: option.splits)

lemma enqueue_links_visited: "visited (enqueue_links e nurl hrefs s) = visited s"
  by (induction hrefs arbitrary: s) (simp_all add: enqueue_link_visited)

lemma set_add_idem: "set_add x (set_add x xs) = set_add x xs"
  by (simp add: set_add_def)

lemma try_visit_Inr: "try_visit e nurl s = Inr s' \<Longrightarrow> visited s' = set_add nurl (visited s)"
  by (auto simp: try_visit_def Let_def enqueue_links_visited split: option.splits prod.splits
           dest!: download_assets_frame scan_css_files_frame)

lemma try_visit_Inl:
  "try_visit e nurl s = Inl s' \<Longrightarrow> visited s' = visited s \<or> visited s' = set_add nurl (visited s)"
  by (auto simp: try_visit_def Let_def split: option.splits prod.splits
           dest!: download_assets_frame scan_css_files_frame)

lemma visit_visited: "visited (visit e nurl s) = set_add nurl (visited s)"
  by (auto simp: visit_def set_add_idem split: sum.splits dest!: try_visit_Inr try_visit_Inl)

lemma iteration_cases:
  "(visited (iteration e s) = visited s \<and> toVisit (iteration e s) = tl (toVisit s))
   \<or> (\<exists>nurl. nurl \<notin> set (visited s) \<and> visited (iteration e s) = visited s @ [nurl])"
  by (auto simp: iteration_def Let_def visit_visited set_add_def split: option.splits)

text \<open>
  The \<open>while\<close> loop. It ends: a turn either takes a URL from the queue and leaves
  \<open>visited\<close> as it is, or makes \<open>visited\<close> one longer, and the guard bounds its length.
\<close>

function crawl :: "env \<Rightarrow> state \<Rightarrow> state" where
  "crawl e s =
     (if toVisit s \<noteq> [] \<and> length (visited s) < MAX_PAGES e then crawl e (iteration e s) else s)"
  by pat_completeness auto
termination
proof (relation "measures [\<lambda>(e :: env, s :: state). MAX_PAGES e - length (visited s),
                           \<lambda>(e :: env, s :: state). length (toVisit s)]")
  show "wf (measures [\<lambda>(e :: env, s :: state). MAX_PAGES e - length (visited s),
                           \<lambda>(e :: env, s :: state). length (toVisit s)])"
    by simp
next
  fix e :: env and s :: state
  assume "toVisit s \<noteq> [] \<and> length (visited s) < MAX_PAGES e"
  then show "((e, iteration e s), (e, s))
      \<in> measures [\<lambda>(e :: env, s :: state). MAX_PAGES e - length (visited s),
                           \<lambda>(e :: env, s :: state). length (toVisit s)]"
    using iteration_cases[of e s] by auto
qed

declare crawl.simps [simp del]



text \<open>The state after at most \<open>n\<close> turns of the loop.\<close>

fun after_turns :: "env \<Rightarrow> nat \<Rightarrow> state \<Rightarrow> state" where
  "after_turns e 0 s = s"
| "after_turns e (Suc n) s =
     (if toVisit s \<noteq> [] \<and> length (visited s) < MAX_PAGES e then after_turns e n (iteration e s) else s)"

text \<open>
  The main function: the output directory is created when missing (a failure there ends
  the script before the loop, \<open>None\<close>), then the loop runs from the start URL.
\<close>

definition main :: "env \<Rightarrow> filesystem \<Rightarrow> state option" where
  "main e fs =
     (case (if existsSync fs (OUTPUT_DIR e) then Some fs else mkdirSync_recursive fs (OUTPUT_DIR e)) of
        None \<Rightarrow> None
      | Some d \<Rightarrow> Some (crawl e (initial_state e d)))"

text \<open>
  Admission as the specification words it: the anchor resolves and normalises, the host is
  the start host, the path begins with the prefix, and the normalised URL is neither
  visited nor pending. \<open>Some\<close> of the URL admitted, or \<open>None\<close>.
\<close>

definition admission :: "env \<Rightarrow> string \<Rightarrow> state \<Rightarrow> string \<Rightarrow> string option" where
  "admission e nurl s a =
     (case new_URL e a (Some nurl) of
        None \<Rightarrow> None
      | Some u \<Rightarrow>
          (case (new_URL e (href u) None, normalize e (href u)) of
             (Some absObj, Some norm) \<Rightarrow>
               if hostname absObj = START_HOSTNAME e
                  \<and> prefix (PATH_PREFIX e) (pathname absObj)
                  \<and> norm \<noteq> []
                  \<and> norm \<notin> set (visited s)
                  \<and> norm \<notin> set (toVisit s)
               then Some norm else None
           | _ \<Rightarrow> None))"

section \<open>An example site\<close>

text \<open>
  A parser for the examples. It reads \<open>https://host/path?query#fragment\<close> (a host,
  no credentials, no port) and \<open>data:\<close> URLs, and resolves against an \<open>https\<close> base a
  reference that starts with \<open>//\<close> or \<open>/\<close> or is a relative path. On the URLs of the
  examples (lower case, no dot segments, no character that the URL Standard would encode)
  it gives what \<open>new URL\<close> gives. The files of the examples are ASCII, so reading
  them as UTF-8 gives their bytes.
\<close>

definition split_url_tail :: "string \<Rightarrow> string \<times> string option \<times> string option" where
  "split_url_tail t =
     (let p = takeWhile (\<lambda>c. c \<noteq> CHR ''?'' \<and> c \<noteq> CHR ''#'') t;
          r = drop (length p) t;
          q = (case r of [] \<Rightarrow> None
               | c # r' \<Rightarrow> if c = CHR ''?'' then Some (takeWhile (\<lambda>c. c \<noteq> CHR ''#'') r') else None);
          f = (case dropWhile (\<lambda>c. c \<noteq> CHR ''#'') r of [] \<Rightarrow> None | c # r' \<Rightarrow> Some r')
      in (p, q, f))"

definition ex_parse_absolute :: "string \<Rightarrow> url option" where
  "ex_parse_absolute s =
     (if prefix ''https://'' s then
        let rest = drop 8 s;
            h = takeWhile (\<lambda>c. c \<noteq> CHR ''/'' \<and> c \<noteq> CHR ''?'' \<and> c \<noteq> CHR ''#'') rest;
            (p, q, f) = split_url_tail (drop (length h) rest)
        in if h = [] then None
           else Some \<lparr>protocol = ''https:'', has_authority = True, userinfo = [], hostname = h,
                      port = [], pathname = (if p = [] then ''/'' else p), opaque_path = False,
                      query = q, fragment = f\<rparr>
      else if prefix ''data:'' s then
        let (p, q, f) = split_url_tail (drop 5 s)
        in Some \<lparr>protocol = ''data:'', has_authority = False, userinfo = [], hostname = [],
                  port = [], pathname = p, opaque_path = True, query = q, fragment = f\<rparr>
      else None)"

definition ex_new_URL :: "string \<Rightarrow> string option \<Rightarrow> url option" where
  "ex_new_URL s base =
     (case ex_parse_absolute s of
        Some u \<Rightarrow> Some u
      | None \<Rightarrow>
          (case base of
             None \<Rightarrow> None
           | Some b \<Rightarrow>
               (case ex_parse_absolute b of
                  None \<Rightarrow> None
                | Some bu \<Rightarrow>
                    if opaque_path bu then None
                    else if prefix ''//'' s then ex_parse_absolute (protocol bu @ s)
                    else
                      let (p, q, f) = split_url_tail s in
                      if prefix ''/'' s then Some (bu\<lparr>pathname := p, query := q, fragment := f\<rparr>)
                      else if p = [] then
                        Some (bu\<lparr>query := (if q = None then query bu else q), fragment := f\<rparr>)
                      else
                        Some (bu\<lparr>pathname := rev (dropWhile (\<lambda>c. c \<noteq> CHR ''/'') (rev (pathname bu))) @ p,
                                 query := q, fragment := f\<rparr>))))"

definition ex_env :: "(string \<Rightarrow> response option) \<Rightarrow> (string \<Rightarrow> page option) \<Rightarrow> nat \<Rightarrow> env" where
  "ex_env net browser n =
     \<lparr>new_URL = ex_new_URL, decodeURIComponent = Some, toString_utf8 = (\<lambda>bytes. bytes),
      fetchImpl = net, goto = browser,
      script_dirname = ''/srv'', START_URL = ''https://example.test/app/'',
      START_HOSTNAME = ''example.test'', PATH_PREFIX = ''/app/'', MAX_PAGES = n\<rparr>"

text \<open>A disk with nothing on it, and a site where every page links to a deeper one.\<close>

definition empty_disk :: filesystem where
  "empty_disk = \<lparr>files = (\<lambda>p. None), dirs = {}\<rparr>"

definition chain_browser :: "string \<Rightarrow> page option" where
  "chain_browser nurl = Some \<lparr>content = ''<a href=x/>next</a>'', assets = [], anchors = Some [''x/'']\<rparr>"

text \<open>The state after the start page has been visited, with one URL pending.\<close>

definition after_first_page :: state where
  "after_first_page =
     \<lparr>disk = empty_disk, fetched = [], assetsDownloaded = [],
      visited = [''https://example.test/app/''], toVisit = [''https://example.test/app/queued/'']\<rparr>"

text \<open>A network that serves one image and one style sheet of the example site.\<close>

definition ex_net :: "string \<Rightarrow> response option" where
  "ex_net u =
     (if u = ''https://example.test/app/img/a.png''
      then Some \<lparr>ok = True, status = 200, arrayBuffer = Some ''PNG''\<rparr>
      else Some \<lparr>ok = False, status = 404, arrayBuffer = Some []\<rparr>)"


text \<open>The state after the image of the example site has been saved.\<close>

definition image_saved :: state where
  "image_saved =
     \<lparr>disk = \<lparr>files = (\<lambda>p. None)(''/srv/rendered-site/app/img/a.png'' \<mapsto> ''PNG''),
              dirs = {''/srv'', ''/srv/rendered-site'', ''/srv/rendered-site/app'',
                      ''/srv/rendered-site/app/img''}\<rparr>,
      fetched = [''https://example.test/app/img/a.png''],
      assetsDownloaded = [''https://example.test/app/img/a.png''],
      visited = [], toVisit = []\<rparr>"

text \<open>
  A page with one style sheet. The sheet imports a second sheet, names a font by a
  relative reference and carries an inline image; the second sheet names a background.
\<close>

definition styled_net :: "string \<Rightarrow> response option" where
  "styled_net u =
     (if u = ''https://example.test/app/css/site.css'' then
        Some \<lparr>ok = True, status = 200, arrayBuffer =
          Some ''@import url(more.css);@font-face{src:url(fonts/x.woff)}i{background:url(data:image/gif;base64,R0lG)}''\<rparr>
      else if u = ''https://example.test/app/css/more.css'' then
        Some \<lparr>ok = True, status = 200, arrayBuffer = Some ''b{background:url(bg.png)}''\<rparr>
      else if u = ''https://example.test/app/css/fonts/x.woff'' then
        Some \<lparr>ok = True, status = 200, arrayBuffer = Some ''WOFF''\<rparr>
      else if u = ''https://example.test/app/css/bg.png'' then
        Some \<lparr>ok = True, status = 200, arrayBuffer = Some ''PNG''\<rparr>
      else Some \<lparr>ok = False, status = 404, arrayBuffer = Some []\<rparr>)"

definition styled_browser :: "string \<Rightarrow> page option" where
  "styled_browser nurl =
     (if nurl = ''https://example.test/app/'' then
        Some \<lparr>content = ''<link rel=stylesheet href=https://example.test/app/css/site.css>'',
              assets = [''https://example.test/app/css/site.css''], anchors = Some []\<rparr>
      else None)"

definition styled_run :: state where
  "styled_run = crawl (ex_env styled_net styled_browser 5) (initial_state (ex_env styled_net styled_browser 5) empty_disk)"

text \<open>The state after the style sheet of that page has been saved.\<close>

definition sheet_saved :: state where
  "sheet_saved =
     \<lparr>disk = \<lparr>files = (\<lambda>p. None)(''/srv/rendered-site/app/css/site.css'' \<mapsto>
                ''@import url(more.css);@font-face{src:url(fonts/x.woff)}i{background:url(data:image/gif;base64,R0lG)}''),
              dirs = {''/srv'', ''/srv/rendered-site'', ''/srv/rendered-site/app'',
                      ''/srv/rendered-site/app/css''}\<rparr>,
      fetched = [''https://example.test/app/css/site.css''],
      assetsDownloaded = [''https://example.test/app/css/site.css''],
      visited = [], toVisit = []\<rparr>"

section \<open>Auxiliary notions\<close>

text \<open>A segment that normalisation keeps as it is.\<close>

definition proper_seg :: "string \<Rightarrow> bool" where
  "proper_seg s \<longleftrightarrow> s \<noteq> [] \<and> s \<noteq> ''.'' \<and> s \<noteq> ''..'' \<and> CHR ''/'' \<notin> set s"

text \<open>The segments of \<open>OUTPUT_DIR\<close>.\<close>

definition out_segs :: "env \<Rightarrow> string list" where
  "out_segs e = norm_segs False [] (split_on CHR ''/'' (script_dirname e)) @ [''rendered-site'']"

text \<open>The path of which \<open>urlToLocalPath\<close> takes the extension (line 56).\<close>

definition stem :: "string \<Rightarrow> string" where
  "stem decoded =
     (let p = (if suffix ''/'' decoded then decoded @ ''index'' else decoded)
      in if prefix ''/'' p then drop 1 p else p)"

text \<open>A URL that has neither been fetched nor recorded as downloaded.\<close>

definition untouched :: "string \<Rightarrow> state \<Rightarrow> bool" where
  "untouched u s \<longleftrightarrow> u \<notin> set (assetsDownloaded s) \<and> u \<notin> set (fetched s)"

text \<open>An absolute path in normal form: \<open>/\<close> and proper segments joined by \<open>/\<close>.\<close>

definition resolved :: "string \<Rightarrow> bool" where
  "resolved p \<longleftrightarrow>
     prefix ''/'' p \<and> (p = ''/'' \<or> (\<forall>s\<in>set (split_on CHR ''/'' (drop 1 p)). proper_seg s))"

text \<open>
  A text cut at delimiter characters: the first piece, then each delimiter with the piece
  behind it.
\<close>

fun join_pieces :: "string \<Rightarrow> (char \<times> string) list \<Rightarrow> string" where
  "join_pieces f [] = f"
| "join_pieces f ((d, f') # rest) = f @ d # join_pieces f' rest"

definition map_pieces :: "(string \<Rightarrow> string) \<Rightarrow> (char \<times> string) list \<Rightarrow> (char \<times> string) list" where
  "map_pieces g rest = map (\<lambda>(d, f). (d, g f)) rest"

text \<open>The protocol-relative form of a parsed URL (line 244).\<close>

definition origin_less :: "url \<Rightarrow> string" where
  "origin_less u = ''//'' @ hostname u @ pathname u @ search u"

text \<open>A string in which none of the search patterns of the entries occurs.\<close>

definition inert :: "env \<Rightarrow> (string \<times> string) list \<Rightarrow> string \<Rightarrow> bool" where
  "inert e entries f \<longleftrightarrow>
     (\<forall>(k, lp)\<in>set entries.
        \<not> sublist k f
        \<and> (case new_URL e k None of None \<Rightarrow> True | Some u \<Rightarrow> \<not> sublist (origin_less u) f))"

text \<open>No key occurs, as itself or in its protocol-relative form, in a key behind it.\<close>

fun ordered_keys :: "env \<Rightarrow> (string \<times> string) list \<Rightarrow> bool" where
  "ordered_keys e [] = True"
| "ordered_keys e ((k, lp) # rest) =
     ((\<forall>(k', lp')\<in>set rest. inert e [(k, lp)] k') \<and> ordered_keys e rest)"

text \<open>
  The conditions under which the textual replacement is exact: the patterns are not
  empty and free of delimiters, the relative paths are free of \<open>$\<close> and of every
  pattern, the keys are ordered as above, and each piece of the text is a key or inert.
\<close>

definition rewritable :: "env \<Rightarrow> (char \<Rightarrow> bool) \<Rightarrow> string \<Rightarrow> (string \<times> string) list \<Rightarrow> string list \<Rightarrow> bool" where
  "rewritable e D htmlFilePath entries pieces \<longleftrightarrow>
     (\<forall>(k, lp)\<in>set entries.
        k \<noteq> [] \<and> (\<forall>c\<in>set k. \<not> D c)
        \<and> (case new_URL e k None of None \<Rightarrow> False | Some u \<Rightarrow> \<forall>c\<in>set (origin_less u). \<not> D c)
        \<and> CHR ''$'' \<notin> set (makeRelativeForHtml htmlFilePath lp)
        \<and> inert e entries (makeRelativeForHtml htmlFilePath lp))
     \<and> ordered_keys e entries
     \<and> (\<forall>f\<in>set pieces. f \<in> fst ` set entries \<or> inert e entries f)"

text \<open>What the rewriting makes of one piece: the relative path for a key, the piece otherwise.\<close>

definition rewritten_piece :: "string \<Rightarrow> (string \<times> string) list \<Rightarrow> string \<Rightarrow> string" where
  "rewritten_piece htmlFilePath entries f =
     (case map_of entries f of None \<Rightarrow> f | Some lp \<Rightarrow> makeRelativeForHtml htmlFilePath lp)"

text \<open>The double quote, the delimiter of attribute values in the examples.\<close>

definition quote :: "char \<Rightarrow> bool" where
  "quote c \<longleftrightarrow> c = CHR 0x22"

text \<open>The file at \<open>p\<close> holds what the network answered for \<open>a\<close>, whose local path is \<open>p\<close>.\<close>

definition fetched_verbatim :: "env \<Rightarrow> string \<Rightarrow> string \<Rightarrow> string \<Rightarrow> bool" where
  "fetched_verbatim e a p x \<longleftrightarrow>
     urlToLocalPath e a = Some p
     \<and> (case fetchImpl e a of None \<Rightarrow> False | Some res \<Rightarrow> ok res \<and> arrayBuffer res = Some x)"

text \<open>
  From \<open>s\<close> to \<open>s'\<close> the URLs \<open>new\<close> have been fetched, the files and directories of \<open>s\<close>
  are as they were, no file has become a directory, and every new file holds what was
  fetched for it.
\<close>

definition grown :: "env \<Rightarrow> string list \<Rightarrow> state \<Rightarrow> state \<Rightarrow> bool" where
  "grown e new s s' \<longleftrightarrow>
     fetched s' = fetched s @ new
     \<and> dirs (disk s) \<subseteq> dirs (disk s')
     \<and> (\<forall>p x. files (disk s) p = Some x \<longrightarrow>
            files (disk s') p = Some x \<and> (p \<in> dirs (disk s') \<longrightarrow> p \<in> dirs (disk s)))
     \<and> (\<forall>p x. files (disk s) p = None \<longrightarrow> files (disk s') p = Some x \<longrightarrow>
            (\<exists>a\<in>set new. fetched_verbatim e a p x))"

section \<open>Facts about strings and paths\<close>


lemma hex_digit_inj: "a < 16 \<Longrightarrow> b < 16 \<Longrightarrow> hex_digit a = hex_digit b \<Longrightarrow> a = b"
proof -
  have *: "\<forall>a\<in>set [0..<16]. \<forall>b\<in>set [0..<16]. hex_digit a = hex_digit b \<longrightarrow> a = b"
    by code_simp
  assume "a < 16" "b < 16" "hex_digit a = hex_digit b"
  with * show ?thesis by auto
qed

lemma hex_of_char_inj: "hex_of_char a = hex_of_char b \<Longrightarrow> a = b"
proof -
  assume h: "hex_of_char a = hex_of_char b"
  let ?a = "of_char a :: nat" and ?b = "of_char b :: nat"
  have d: "?a div 16 < 16" "?b div 16 < 16"
    using nat_of_char_less_256[of a] nat_of_char_less_256 [of b] by (simp_all add: less_mult_imp_div_less)
  have m: "?a mod 16 < 16" "?b mod 16 < 16" by simp_all
  from h have "hex_digit (?a div 16) = hex_digit (?b div 16)" "hex_digit (?a mod 16) = hex_digit (?b mod 16)"
    by (simp_all add: hex_of_char_def)
  then have "?a div 16 = ?b div 16" "?a mod 16 = ?b mod 16"
    using hex_digit_inj[OF d] hex_digit_inj[OF m] by blast+
  then have "?a = ?b" by (metis div_mult_mod_eq)
  then show ?thesis by simp
qed

lemma hex_of_string_inj: "hex_of_string s = hex_of_string t \<Longrightarrow> s = t"
proof (induction s arbitrary: t)
  case Nil
  then show ?case by (cases t) (auto simp: hex_of_string_def hex_of_char_def)
next
  case (Cons c s)
  show ?case
  proof (cases t)
    case Nil
    with Cons.prems show ?thesis by (simp add: hex_of_string_def hex_of_char_def)
  next
    case (Cons d t')
    with Cons.prems have "hex_of_char c = hex_of_char d" "hex_of_string s = hex_of_string t'"
      by (simp_all add: hex_of_string_def hex_of_char_def)
    with Cons.IH Cons show ?thesis by (auto dest: hex_of_char_inj)
  qed
qed

lemma split_on_not_Nil [simp]: "split_on c xs \<noteq> []"
  by (induction xs) (auto split: list.splits)

lemma join_split [simp]: "join_with c (split_on c s) = s"
proof (induction s)
  case Nil show ?case by simp
next
  case (Cons x s)
  obtain y ys where e: "split_on c s = y # ys" by (cases "split_on c s") auto
  with Cons show ?case by (cases ys) auto
qed

lemma split_on_free: "s \<in> set (split_on c xs) \<Longrightarrow> c \<notin> set s"
  by (induction xs arbitrary: s) (auto split: list.splits if_splits)

lemma split_on_append_sep: "split_on c (a @ c # b) = split_on c a @ split_on c b"
  by (induction a) (auto split: list.splits)

lemma split_on_append_free:
  "c \<notin> set b \<Longrightarrow> split_on c (a @ b) = butlast (split_on c a) @ [last (split_on c a) @ b]"
proof (induction a)
  case Nil
  then show ?case by (induction b) (auto split: list.splits)
next
  case (Cons x a)
  then show ?case by (auto split: list.splits)
qed

lemma split_on_no_sep: "c \<notin> set s \<Longrightarrow> split_on c s = [s]"
  by (induction s) auto

lemma split_join:
  "segs \<noteq> [] \<Longrightarrow> \<forall>s\<in>set segs. c \<notin> set s \<Longrightarrow> split_on c (join_with c segs) = segs"
proof (induction c segs rule: join_with.induct)
  case (3 c s t ss)
  then show ?case by (simp add: split_on_append_sep split_on_no_sep)
qed (simp_all add: split_on_no_sep)


lemma join_with_Nil_iff: "\<forall>s\<in>set segs. s \<noteq> [] \<Longrightarrow> join_with c segs = [] \<longleftrightarrow> segs = []"
  by (induction c segs rule: join_with.induct) auto

lemma norm_segs_append: "norm_segs a res (xs @ ys) = norm_segs a (norm_segs a res xs) ys"
  by (induction xs arbitrary: res) auto

lemma norm_segs_proper_list:
  "\<forall>s\<in>set ps. proper_seg s \<Longrightarrow> norm_segs a res ps = res @ ps"
  by (induction ps arbitrary: res) (auto simp: proper_seg_def)

lemma norm_segs_proper:
  "\<forall>s\<in>set res. proper_seg s \<Longrightarrow> \<forall>s\<in>set ss. CHR ''/'' \<notin> set s
   \<Longrightarrow> \<forall>s\<in>set (norm_segs False res ss). proper_seg s"
proof (induction ss arbitrary: res)
  case Nil
  then show ?case by simp
next
  case (Cons s ss)
  have b: "\<forall>s\<in>set (butlast res). proper_seg s"
    using Cons.prems(1) by (auto dest: in_set_butlastD)
  have n: "s \<noteq> [] \<Longrightarrow> s \<noteq> ''.'' \<Longrightarrow> s \<noteq> ''..'' \<Longrightarrow> \<forall>t\<in>set (res @ [s]). proper_seg t"
    using Cons.prems by (auto simp: proper_seg_def)
  show ?case
    using Cons.IH[OF Cons.prems(1)] Cons.IH[OF b] Cons.IH[OF n] Cons.prems(2)
    by simp
qed

lemma filter_proper: "\<forall>s\<in>set segs. proper_seg s \<Longrightarrow> filter (\<lambda>s. s \<noteq> []) segs = segs"
  by (induction segs) (auto simp: proper_seg_def)

lemma split_abs:
  assumes "\<forall>s\<in>set segs. proper_seg s"
  shows "filter (\<lambda>s. s \<noteq> []) (split_on CHR ''/'' (CHR ''/'' # join_with CHR ''/'' segs)) = segs"
proof (cases "segs = []")
  case True
  then show ?thesis by simp
next
  case False
  with assms have "split_on CHR ''/'' (join_with CHR ''/'' segs) = segs"
    by (intro split_join) (auto simp: proper_seg_def)
  with assms show ?thesis by (simp add: filter_proper)
qed

lemma split_abs_trail:
  assumes "\<forall>s\<in>set segs. proper_seg s" "segs \<noteq> []"
  shows "filter (\<lambda>s. s \<noteq> []) (split_on CHR ''/'' (CHR ''/'' # join_with CHR ''/'' segs @ ''/'')) = segs"
proof -
  from assms have "split_on CHR ''/'' (join_with CHR ''/'' segs) = segs"
    by (intro split_join) (auto simp: proper_seg_def)
  with assms show ?thesis by (simp add: filter_proper split_on_append_sep)
qed

lemma normalize_abs_segs:
  "filter (\<lambda>s. s \<noteq> []) (split_on CHR ''/'' (posix_normalize (CHR ''/'' # r)))
   = norm_segs False [] (split_on CHR ''/'' r)"
proof -
  let ?S = "norm_segs False [] (split_on CHR ''/'' r)"
  have p: "\<forall>s\<in>set ?S. proper_seg s"
    by (rule norm_segs_proper) (auto dest: split_on_free)
  then have e: "join_with CHR ''/'' ?S = [] \<longleftrightarrow> ?S = []"
    by (intro join_with_Nil_iff) (auto simp: proper_seg_def)
  show ?thesis
  proof (cases "?S = []")
    case True
    then show ?thesis by (simp add: posix_normalize_def)
  next
    case False
    with e p show ?thesis
      using split_abs[OF p] split_abs_trail[OF p False]
      by (simp add: posix_normalize_def Let_def)
  qed
qed


lemma out_segs_proper: "\<forall>s\<in>set (out_segs e). proper_seg s"
proof -
  have "\<forall>s\<in>set (norm_segs False [] (split_on CHR ''/'' (script_dirname e))). proper_seg s"
    by (rule norm_segs_proper) (auto dest: split_on_free)
  then show ?thesis by (auto simp: out_segs_def proper_seg_def)
qed

lemma OUTPUT_DIR_segs: "OUTPUT_DIR e = CHR ''/'' # join_with CHR ''/'' (out_segs e)"
  by (simp add: OUTPUT_DIR_def posix_resolve_def out_segs_def norm_segs_append)

lemma join_out_segs_not_Nil: "join_with CHR ''/'' (out_segs e) \<noteq> []"
  using join_with_Nil_iff[of "out_segs e" "CHR ''/''"] out_segs_proper[of e]
  by (auto simp: proper_seg_def out_segs_def)

lemma posix_join_OUT:
  "filter (\<lambda>s. s \<noteq> []) (split_on CHR ''/'' (posix_join (OUTPUT_DIR e) x))
   = norm_segs False (out_segs e) (split_on CHR ''/'' x)"
proof -
  let ?O = "out_segs e"
  have sj: "split_on CHR ''/'' (join_with CHR ''/'' ?O) = ?O"
    using out_segs_proper[of e] by (intro split_join) (auto simp: proper_seg_def out_segs_def)
  have nO: "norm_segs False [] ?O = ?O"
    using norm_segs_proper_list[OF out_segs_proper, where a=False and res="[]"] by simp
  show ?thesis
  proof (cases "x = []")
    case True
    then have "posix_join (OUTPUT_DIR e) x = posix_normalize (CHR ''/'' # join_with CHR ''/'' ?O)"
      by (simp add: posix_join_def OUTPUT_DIR_segs)
    then show ?thesis using True by (simp add: normalize_abs_segs sj nO)
  next
    case False
    then have "posix_join (OUTPUT_DIR e) x
                 = posix_normalize (CHR ''/'' # (join_with CHR ''/'' ?O @ CHR ''/'' # x))"
      by (simp add: posix_join_def OUTPUT_DIR_segs)
    then show ?thesis
      by (simp add: normalize_abs_segs split_on_append_sep sj norm_segs_append nO)
  qed
qed

lemma hex_no_slash: "CHR ''/'' \<notin> set (hex_of_string s)"
proof -
  have d: "\<forall>n\<in>set [0..<16]. hex_digit n \<noteq> CHR ''/''" by code_simp
  have n: "n < 16 \<Longrightarrow> hex_digit n \<noteq> CHR ''/''" for n using d by simp
  have "hex_digit (of_char c div 16) \<noteq> CHR ''/''" "hex_digit (of_char c mod 16) \<noteq> CHR ''/''" for c
    using nat_of_char_less_256[of c] by (auto intro!: n simp: less_mult_imp_div_less)
  then have "CHR ''/'' \<notin> set (hex_of_char c)" for c
    unfolding hex_of_char_def by (metis empty_iff empty_set set_ConsD)
  then show ?thesis
    unfolding hex_of_string_def by auto
qed

lemma segs_suffixed:
  assumes "h = hex_of_string s"
  shows "norm_segs False (out_segs e) (split_on CHR ''/'' (p @ ''_'' @ h))
         = norm_segs False (out_segs e) (butlast (split_on CHR ''/'' p))
           @ [last (split_on CHR ''/'' p) @ ''_'' @ h]"
proof -
  have f: "CHR ''/'' \<notin> set (''_'' @ h)" using hex_no_slash[of s] assms by auto
  have l: "CHR ''/'' \<notin> set (last (split_on CHR ''/'' p))"
    by (rule split_on_free[of _ _ p]) simp
  have pr: "proper_seg (last (split_on CHR ''/'' p) @ ''_'' @ h)"
    using f l by (auto simp: proper_seg_def append_eq_Cons_conv)
  show ?thesis
    by (simp only: split_on_append_free[OF f] norm_segs_append)
       (use pr in \<open>simp add: proper_seg_def\<close>)
qed


lemma segs_plain:
  "norm_segs False (out_segs e) (split_on CHR ''/'' p)
   = norm_segs False (norm_segs False (out_segs e) (butlast (split_on CHR ''/'' p))) [last (split_on CHR ''/'' p)]"
proof -
  have "split_on CHR ''/'' p = butlast (split_on CHR ''/'' p) @ [last (split_on CHR ''/'' p)]"
    by simp
  then show ?thesis by (metis norm_segs_append)
qed

lemma suffixed_neq_plain:
  assumes "posix_join (OUTPUT_DIR e) (p @ ''_'' @ hex_of_string s) = posix_join (OUTPUT_DIR e) p"
  shows False
proof -
  let ?B = "norm_segs False (out_segs e) (butlast (split_on CHR ''/'' p))"
  let ?L = "last (split_on CHR ''/'' p)"
  from assms have "norm_segs False (out_segs e) (split_on CHR ''/'' (p @ ''_'' @ hex_of_string s))
      = norm_segs False (out_segs e) (split_on CHR ''/'' p)"
    by (simp only: posix_join_OUT[symmetric])
  then have eq: "?B @ [?L @ ''_'' @ hex_of_string s] = norm_segs False ?B [?L]"
    using segs_suffixed[OF refl, of e p s] segs_plain[of e p] by simp
  have c: "norm_segs False ?B [?L] = ?B \<or> norm_segs False ?B [?L] = butlast ?B
           \<or> norm_segs False ?B [?L] = ?B @ [?L]"
    by simp
  have 1: "?B @ [x] \<noteq> ?B" for x by simp
  have 2: "?B @ [x] \<noteq> butlast ?B" for x
  proof
    assume "?B @ [x] = butlast ?B"
    then have "length (?B @ [x]) = length (butlast ?B)" by (rule arg_cong)
    then show False by simp
  qed
  have 3: "?B @ [?L @ ''_'' @ hex_of_string s] \<noteq> ?B @ [?L]" by simp
  from c eq 1 2 3 show False by metis
qed

lemma suffixed_inj:
  assumes "posix_join (OUTPUT_DIR e) (p @ ''_'' @ hex_of_string s) = posix_join (OUTPUT_DIR e) (p @ ''_'' @ hex_of_string t)"
  shows "s = t"
proof -
  from assms have "norm_segs False (out_segs e) (split_on CHR ''/'' (p @ ''_'' @ hex_of_string s))
      = norm_segs False (out_segs e) (split_on CHR ''/'' (p @ ''_'' @ hex_of_string t))"
    by (simp only: posix_join_OUT[symmetric])
  then have "hex_of_string s = hex_of_string t"
    using segs_suffixed[OF refl, of e p s] segs_suffixed[OF refl, of e p t] by simp
  then show ?thesis by (rule hex_of_string_inj)
qed


lemma urlToLocalPath_stem:
  "urlToLocalPath e a =
     (case new_URL e a None of None \<Rightarrow> None
      | Some u \<Rightarrow>
         (case decodeURIComponent e (pathname u) of None \<Rightarrow> None
          | Some d \<Rightarrow>
              Some (posix_join (OUTPUT_DIR e)
                (if posix_extname (stem d) = [] \<and> search u \<noteq> []
                 then stem d @ ''_'' @ hex_of_string (search u) else stem d))))"
  by (simp add: urlToLocalPath_def stem_def Let_def split: option.splits)

section \<open>The path mapper\<close>

text \<open>
  Claim C5, as worded, fails where the two URLs differ in having no query and an empty
  one: \<open>https://example.test/app/api\<close> and \<open>https://example.test/app/api?\<close> are two
  URLs (their serialisations differ), \<open>u.search\<close> is empty for both, and line 57 gives
  both the path of the file \<open>api\<close>.
\<close>

theorem query_absent_or_empty_counterexample:
  "''https://example.test/app/api'' \<noteq> ''https://example.test/app/api?''
   \<and> new_URL (ex_env (\<lambda>u. None) (\<lambda>u. None) 5) ''https://example.test/app/api'' None
       = Some \<lparr>protocol = ''https:'', has_authority = True, userinfo = [], hostname = ''example.test'',
               port = [], pathname = ''/app/api'', opaque_path = False, query = None, fragment = None\<rparr>
   \<and> new_URL (ex_env (\<lambda>u. None) (\<lambda>u. None) 5) ''https://example.test/app/api?'' None
       = Some \<lparr>protocol = ''https:'', has_authority = True, userinfo = [], hostname = ''example.test'',
               port = [], pathname = ''/app/api'', opaque_path = False, query = Some [], fragment = None\<rparr>
   \<and> posix_extname (stem ''/app/api'') = []
   \<and> urlToLocalPath (ex_env (\<lambda>u. None) (\<lambda>u. None) 5) ''https://example.test/app/api''
       = Some ''/srv/rendered-site/app/api''
   \<and> urlToLocalPath (ex_env (\<lambda>u. None) (\<lambda>u. None) 5) ''https://example.test/app/api?''
       = Some ''/srv/rendered-site/app/api''"
  by code_simp

text \<open>
  Claim C5, amended. Two URLs that parse, whose decoded paths are the same and, as
  \<open>urlToLocalPath\<close> reads them at line 56, without an extension, and whose \<open>u.search\<close>
  differ, get two different local paths. The path of each is \<open>path.join\<close> of the output
  directory and the decoded path, with \<open>_\<close> and the bytes of \<open>u.search\<close> in hexadecimal
  behind it when \<open>u.search\<close> is not empty; \<open>path.join\<close> keeps that suffix as the end of
  the last segment. This holds for every parser, every decoder and every script directory.
\<close>

theorem query_folded_into_path:
  assumes "new_URL e a None = Some ua" and "new_URL e b None = Some ub"
    and "decodeURIComponent e (pathname ua) = Some d"
    and "decodeURIComponent e (pathname ub) = Some d"
    and "search ua \<noteq> search ub"
    and "posix_extname (stem d) = []"
  shows "urlToLocalPath e a
           = Some (posix_join (OUTPUT_DIR e)
                    (stem d @ (if search ua = [] then [] else ''_'' @ hex_of_string (search ua))))
    \<and> urlToLocalPath e b
           = Some (posix_join (OUTPUT_DIR e)
                    (stem d @ (if search ub = [] then [] else ''_'' @ hex_of_string (search ub))))
    \<and> urlToLocalPath e a \<noteq> urlToLocalPath e b
    \<and> (\<forall>q. filter (\<lambda>s. s \<noteq> [])
               (split_on CHR ''/'' (posix_join (OUTPUT_DIR e) (stem d @ ''_'' @ hex_of_string q)))
            = norm_segs False (out_segs e) (butlast (split_on CHR ''/'' (stem d)))
              @ [last (split_on CHR ''/'' (stem d)) @ ''_'' @ hex_of_string q])"
proof -
  let ?name = "\<lambda>u. stem d @ (if search u = [] then [] else ''_'' @ hex_of_string (search u))"
  have a: "urlToLocalPath e a = Some (posix_join (OUTPUT_DIR e) (?name ua))"
    and b: "urlToLocalPath e b = Some (posix_join (OUTPUT_DIR e) (?name ub))"
    using assms by (simp_all add: urlToLocalPath_stem)
  have "posix_join (OUTPUT_DIR e) (?name ua) \<noteq> posix_join (OUTPUT_DIR e) (?name ub)"
  proof (cases "search ua = []")
    case True
    with assms(5) have "search ub \<noteq> []" by simp
    with True show ?thesis
      using suffixed_neq_plain[of e "stem d" "search ub"] by auto
  next
    case False
    show ?thesis
    proof (cases "search ub = []")
      case True
      with False show ?thesis
        using suffixed_neq_plain[of e "stem d" "search ua"] by auto
    next
      case False
      with \<open>search ua \<noteq> []\<close> assms(5) show ?thesis
        using suffixed_inj[of e "stem d" "search ua" "search ub"] by auto
    qed
  qed
  with a b have c: "urlToLocalPath e a \<noteq> urlToLocalPath e b" by simp
  have f: "filter (\<lambda>s. s \<noteq> [])
               (split_on CHR ''/'' (posix_join (OUTPUT_DIR e) (stem d @ ''_'' @ hex_of_string q)))
            = norm_segs False (out_segs e) (butlast (split_on CHR ''/'' (stem d)))
              @ [last (split_on CHR ''/'' (stem d)) @ ''_'' @ hex_of_string q]" for q
    unfolding posix_join_OUT by (rule segs_suffixed[OF refl])
  from a b c f show ?thesis by blast
qed

text \<open>
  The theorem at \<open>https://example.test/app/api\<close> and the same URL with \<open>?x=1\<close>: the
  local paths are \<open>/srv/rendered-site/app/api\<close> and \<open>/srv/rendered-site/app/api_3f783d31\<close>.
\<close>

theorem query_folded_into_path_witness:
  "urlToLocalPath (ex_env (\<lambda>u. None) (\<lambda>u. None) 5) ''https://example.test/app/api''
     = Some ''/srv/rendered-site/app/api''
   \<and> urlToLocalPath (ex_env (\<lambda>u. None) (\<lambda>u. None) 5) ''https://example.test/app/api?x=1''
     = Some ''/srv/rendered-site/app/api_3f783d31''
   \<and> urlToLocalPath (ex_env (\<lambda>u. None) (\<lambda>u. None) 5) ''https://example.test/app/api''
     \<noteq> urlToLocalPath (ex_env (\<lambda>u. None) (\<lambda>u. None) 5) ''https://example.test/app/api?x=1''"
proof -
  let ?e = "ex_env (\<lambda>u. None) (\<lambda>u. None) 5"
  let ?ua = "\<lparr>protocol = ''https:'', has_authority = True, userinfo = [], hostname = ''example.test'',
               port = [], pathname = ''/app/api'', opaque_path = False, query = None, fragment = None\<rparr>"
  let ?ub = "\<lparr>protocol = ''https:'', has_authority = True, userinfo = [], hostname = ''example.test'',
               port = [], pathname = ''/app/api'', opaque_path = False, query = Some ''x=1'', fragment = None\<rparr>"
  have 1: "new_URL ?e ''https://example.test/app/api'' None = Some ?ua" by code_simp
  have 2: "new_URL ?e ''https://example.test/app/api?x=1'' None = Some ?ub" by code_simp
  have 3: "decodeURIComponent ?e (pathname ?ua) = Some ''/app/api''" by (simp add: ex_env_def)
  have 4: "decodeURIComponent ?e (pathname ?ub) = Some ''/app/api''" by (simp add: ex_env_def)
  have 5: "search ?ua \<noteq> search ?ub" by (simp add: search_def)
  have 6: "posix_extname (stem ''/app/api'') = []" by code_simp
  have pa: "posix_join (OUTPUT_DIR ?e) (stem ''/app/api'' @ (if search ?ua = [] then [] else ''_'' @ hex_of_string (search ?ua)))
      = ''/srv/rendered-site/app/api''" by code_simp
  have pb: "posix_join (OUTPUT_DIR ?e) (stem ''/app/api'' @ (if search ?ub = [] then [] else ''_'' @ hex_of_string (search ?ub)))
      = ''/srv/rendered-site/app/api_3f783d31''" by code_simp
  from query_folded_into_path[OF 1 2 3 4 5 6] show ?thesis
    unfolding pa pb by blast
qed

section \<open>The page cap\<close>

lemma iteration_bound:
  "toVisit s \<noteq> [] \<Longrightarrow> length (visited s) < MAX_PAGES e \<Longrightarrow> length (visited (iteration e s)) \<le> MAX_PAGES e"
  using iteration_cases[of e s] by auto

lemma iteration_distinct: "distinct (visited s) \<Longrightarrow> distinct (visited (iteration e s))"
  using iteration_cases[of e s] by auto

lemma after_turns_bound:
  "length (visited s) \<le> MAX_PAGES e \<Longrightarrow> length (visited (after_turns e n s)) \<le> MAX_PAGES e"
  by (induction n arbitrary: s) (simp_all add: iteration_bound)

lemma after_turns_distinct:
  "distinct (visited s) \<Longrightarrow> distinct (visited (after_turns e n s))"
  by (induction n arbitrary: s) (simp_all add: iteration_distinct)

lemma crawl_after_turns: "\<exists>n. crawl e s = after_turns e n s"
proof (induction e s rule: crawl.induct)
  case (1 e s)
  show ?case
  proof (cases "toVisit s \<noteq> [] \<and> length (visited s) < MAX_PAGES e")
    case True
    with 1 obtain n where "crawl e (iteration e s) = after_turns e n (iteration e s)" by blast
    with True have "crawl e s = after_turns e (Suc n) s" by (subst crawl.simps) simp
    then show ?thesis by blast
  next
    case False
    then have "crawl e s = after_turns e 0 s" by (subst crawl.simps) auto
    then show ?thesis by blast
  qed
qed

lemma crawl_final: "toVisit (crawl e s) = [] \<or> MAX_PAGES e \<le> length (visited (crawl e s))"
proof (induction e s rule: crawl.induct)
  case (1 e s)
  show ?case
  proof (cases "toVisit s \<noteq> [] \<and> length (visited s) < MAX_PAGES e")
    case True
    with 1 show ?thesis by (subst (1 2) crawl.simps) simp
  next
    case False
    then show ?thesis by (subst (1 2) crawl.simps) auto
  qed
qed

text \<open>
  Claim C3. From a state whose \<open>visited\<close> holds at most \<open>MAX_PAGES\<close> distinct URLs (at
  the start it is empty), every state the loop goes through keeps that bound; the loop
  ends, in a state where the queue is empty or \<open>visited\<close> holds exactly \<open>MAX_PAGES\<close>
  URLs; and it stops without a turn only when the queue is empty or the cap is reached.
\<close>

theorem page_cap:
  assumes "length (visited s) \<le> MAX_PAGES e" and "distinct (visited s)"
  shows "(\<forall>n. length (visited (after_turns e n s)) \<le> MAX_PAGES e \<and> distinct (visited (after_turns e n s)))
    \<and> (\<exists>n. crawl e s = after_turns e n s)
    \<and> length (visited (crawl e s)) \<le> MAX_PAGES e
    \<and> (toVisit (crawl e s) = [] \<or> length (visited (crawl e s)) = MAX_PAGES e)
    \<and> (crawl e s = s \<or> (toVisit s \<noteq> [] \<and> length (visited s) < MAX_PAGES e))"
proof -
  have a: "\<forall>n. length (visited (after_turns e n s)) \<le> MAX_PAGES e \<and> distinct (visited (after_turns e n s))"
    using assms by (simp add: after_turns_bound after_turns_distinct)
  obtain n where n: "crawl e s = after_turns e n s" using crawl_after_turns by blast
  with a have b: "length (visited (crawl e s)) \<le> MAX_PAGES e" by simp
  with crawl_final[of e s]
  have c: "toVisit (crawl e s) = [] \<or> length (visited (crawl e s)) = MAX_PAGES e" by auto
  have d: "crawl e s = s \<or> (toVisit s \<noteq> [] \<and> length (visited s) < MAX_PAGES e)"
    by (subst crawl.simps) auto
  from a n b c d show ?thesis by blast
qed

text \<open>
  On a site where every page links to a deeper one, with the cap at 5: exactly five pages
  are visited, and the sixth stays in the queue.
\<close>

theorem page_cap_witness:
  "length (visited (initial_state (ex_env (\<lambda>u. None) chain_browser 5) empty_disk)) \<le> 5
   \<and> visited (crawl (ex_env (\<lambda>u. None) chain_browser 5) (initial_state (ex_env (\<lambda>u. None) chain_browser 5) empty_disk))
       = [''https://example.test/app/'', ''https://example.test/app/x/'', ''https://example.test/app/x/x/'',
          ''https://example.test/app/x/x/x/'', ''https://example.test/app/x/x/x/x/'']
   \<and> toVisit (crawl (ex_env (\<lambda>u. None) chain_browser 5) (initial_state (ex_env (\<lambda>u. None) chain_browser 5) empty_disk))
       = [''https://example.test/app/x/x/x/x/x/'']
   \<and> length (visited (crawl (ex_env (\<lambda>u. None) chain_browser 5) (initial_state (ex_env (\<lambda>u. None) chain_browser 5) empty_disk)))
       = MAX_PAGES (ex_env (\<lambda>u. None) chain_browser 5)"
proof -
  let ?e = "ex_env (\<lambda>u. None) chain_browser 5"
  let ?s = "initial_state ?e empty_disk"
  have 1: "length (visited ?s) \<le> MAX_PAGES ?e" by (simp add: initial_state_def)
  have 2: "distinct (visited ?s)" by (simp add: initial_state_def)
  have 3: "visited (crawl ?e ?s) = [''https://example.test/app/'', ''https://example.test/app/x/'', ''https://example.test/app/x/x/'',
          ''https://example.test/app/x/x/x/'', ''https://example.test/app/x/x/x/x/'']"
    by code_simp
  have 4: "toVisit (crawl ?e ?s) = [''https://example.test/app/x/x/x/x/x/'']"
    by code_simp
  from page_cap[OF 1 2] 4 have "length (visited (crawl ?e ?s)) = MAX_PAGES ?e" by simp
  with 1 3 4 show ?thesis by (simp add: ex_env_def)
qed

section \<open>The frontier\<close>

lemma enqueue_link_admission:
  "enqueue_link e nurl a s =
     (case admission e nurl s a of None \<Rightarrow> s | Some norm \<Rightarrow> s\<lparr>toVisit := toVisit s @ [norm]\<rparr>)"
  by (simp add: enqueue_link_def admission_def Let_def split: option.splits)

lemma enqueue_link_toVisit:
  "toVisit (enqueue_link e nurl a s) = toVisit s
   \<or> (\<exists>norm. admission e nurl s a = Some norm \<and> toVisit (enqueue_link e nurl a s) = toVisit s @ [norm])"
  by (simp add: enqueue_link_admission split: option.splits)

lemma admission_fresh:
  "admission e nurl s a = Some norm \<Longrightarrow> norm \<notin> set (visited s) \<and> norm \<notin> set (toVisit s)"
  by (auto simp: admission_def split: option.splits if_splits)

lemma admission_queue_irrelevant:
  "admission e nurl s' a = Some norm \<Longrightarrow> visited s' = visited s \<Longrightarrow> set (toVisit s) \<subseteq> set (toVisit s')
   \<Longrightarrow> admission e nurl s a = Some norm"
  by (auto simp: admission_def split: option.splits if_splits)

lemma enqueue_links_sound:
  "\<exists>new. toVisit (enqueue_links e nurl hrefs s) = toVisit s @ new
     \<and> (\<forall>n\<in>set new. \<exists>a\<in>set hrefs. admission e nurl s a = Some n)
     \<and> (distinct (toVisit s) \<longrightarrow> distinct (toVisit s @ new))"
proof (induction hrefs arbitrary: s)
  case Nil
  show ?case by simp
next
  case (Cons a hrefs)
  let ?s1 = "enqueue_link e nurl a s"
  obtain new where new: "toVisit (enqueue_links e nurl hrefs ?s1) = toVisit ?s1 @ new"
      "\<forall>n\<in>set new. \<exists>a\<in>set hrefs. admission e nurl ?s1 a = Some n"
      "distinct (toVisit ?s1) \<longrightarrow> distinct (toVisit ?s1 @ new)"
    using Cons.IH[of ?s1] by blast
  have v: "visited ?s1 = visited s" by (simp add: enqueue_link_visited)
  from enqueue_link_toVisit[of e nurl a s] show ?case
  proof
    assume same: "toVisit ?s1 = toVisit s"
    have "\<forall>n\<in>set new. \<exists>a\<in>set hrefs. admission e nurl s a = Some n"
      using new(2) admission_queue_irrelevant[OF _ v] same by (metis subset_refl)
    with new same show ?thesis by auto
  next
    assume "\<exists>norm. admission e nurl s a = Some norm \<and> toVisit ?s1 = toVisit s @ [norm]"
    then obtain norm where norm: "admission e nurl s a = Some norm" "toVisit ?s1 = toVisit s @ [norm]"
      by blast
    have sub: "set (toVisit s) \<subseteq> set (toVisit ?s1)" using norm(2) by auto
    have "\<forall>n\<in>set new. \<exists>a\<in>set hrefs. admission e nurl s a = Some n"
      using new(2) admission_queue_irrelevant[OF _ v sub] by blast
    moreover have "distinct (toVisit s) \<longrightarrow> distinct (toVisit ?s1)"
      using norm admission_fresh[OF norm(1)] by simp
    ultimately show ?thesis
      using new norm
      by (intro exI[of _ "norm # new"]) auto
  qed
qed

text \<open>
  Claim C4. An anchor is put on the queue exactly when it is admitted: it resolves against
  the page and normalises, the resolved URL has the start host and a path that begins with
  the prefix, and the normalised URL is neither in \<open>visited\<close> nor in the queue; then
  the normalised URL goes to the end of the queue, and otherwise the state stays as it
  is. Over all anchors of a page the queue only grows at its end, every URL added was
  admitted for one of the anchors, and a queue without duplicates stays so.
\<close>

theorem frontier_admission:
  "enqueue_link e nurl a s =
     (case admission e nurl s a of None \<Rightarrow> s | Some norm \<Rightarrow> s\<lparr>toVisit := toVisit s @ [norm]\<rparr>)
   \<and> (\<exists>new. toVisit (enqueue_links e nurl hrefs s) = toVisit s @ new
         \<and> (\<forall>n\<in>set new. \<exists>a\<in>set hrefs. admission e nurl s a = Some n)
         \<and> (distinct (toVisit s) \<longrightarrow> distinct (toVisit s @ new)))"
  using enqueue_link_admission enqueue_links_sound by blast

text \<open>
  On the start page of the example site with one URL pending: a new page under the
  prefix is admitted once; another host, a path outside the prefix, the visited page
  itself and the pending URL are rejected.
\<close>

theorem frontier_admission_witness:
  "toVisit (enqueue_links (ex_env (\<lambda>u. None) (\<lambda>u. None) 5) ''https://example.test/app/''
              [''page2/'', ''https://other.test/x'', ''/outside/'', ''https://example.test/app/#top'',
               ''queued/'', ''page2/'']
              after_first_page)
     = [''https://example.test/app/queued/'', ''https://example.test/app/page2/'']
   \<and> admission (ex_env (\<lambda>u. None) (\<lambda>u. None) 5) ''https://example.test/app/'' after_first_page ''page2/''
       = Some ''https://example.test/app/page2/''
   \<and> admission (ex_env (\<lambda>u. None) (\<lambda>u. None) 5) ''https://example.test/app/'' after_first_page
         ''https://other.test/x'' = None
   \<and> admission (ex_env (\<lambda>u. None) (\<lambda>u. None) 5) ''https://example.test/app/'' after_first_page
         ''/outside/'' = None
   \<and> admission (ex_env (\<lambda>u. None) (\<lambda>u. None) 5) ''https://example.test/app/'' after_first_page
         ''https://example.test/app/#top'' = None
   \<and> admission (ex_env (\<lambda>u. None) (\<lambda>u. None) 5) ''https://example.test/app/'' after_first_page
         ''queued/'' = None
   \<and> enqueue_link (ex_env (\<lambda>u. None) (\<lambda>u. None) 5) ''https://example.test/app/'' ''https://other.test/x''
         after_first_page = after_first_page"
proof -
  let ?e = "ex_env (\<lambda>u. None) (\<lambda>u. None) 5"
  let ?n = "''https://example.test/app/''"
  have 1: "toVisit (enqueue_links ?e ?n
              [''page2/'', ''https://other.test/x'', ''/outside/'', ''https://example.test/app/#top'',
               ''queued/'', ''page2/''] after_first_page)
     = [''https://example.test/app/queued/'', ''https://example.test/app/page2/'']" by code_simp
  have 2: "admission ?e ?n after_first_page ''page2/'' = Some ''https://example.test/app/page2/''" by code_simp
  have 3: "admission ?e ?n after_first_page ''https://other.test/x'' = None" by code_simp
  have 4: "admission ?e ?n after_first_page ''/outside/'' = None" by code_simp
  have 5: "admission ?e ?n after_first_page ''https://example.test/app/#top'' = None" by code_simp
  have 6: "admission ?e ?n after_first_page ''queued/'' = None" by code_simp
  have 7: "enqueue_link ?e ?n ''https://other.test/x'' after_first_page = after_first_page"
    using frontier_admission[of ?e ?n "''https://other.test/x''" after_first_page "[]"] 3 by simp
  from 1 2 3 4 5 6 7 show ?thesis by blast
qed



section \<open>Failures while visiting\<close>

lemma enqueue_links_prefix: "prefix (toVisit s) (toVisit (enqueue_links e nurl hrefs s))"
  using enqueue_links_sound[of e nurl hrefs s] by auto

lemma try_visit_toVisit:
  assumes "try_visit e nurl s = Inr s' \<or> try_visit e nurl s = Inl s'"
  shows "prefix (toVisit s) (toVisit s')"
proof (cases "goto e nurl")
  case None
  with assms show ?thesis by (simp add: try_visit_def)
next
  case (Some pg)
  obtain s1 m1 where d: "download_assets e (assets pg) (s, []) = (s1, m1)"
    by (cases "download_assets e (assets pg) (s, [])")
  have t1: "toVisit s1 = toVisit s" using download_assets_frame[OF d] by simp
  have t2: "scan_css_files e cus (s2, m1) = (s3, m3) \<Longrightarrow> toVisit s3 = toVisit s2" for cus s2 s3 m3
    using scan_css_files_frame by blast
  have t3: "toVisit s2 = toVisit s \<Longrightarrow> prefix (toVisit s) (toVisit (enqueue_links e nurl hrefs s2))"
    for s2 hrefs using enqueue_links_prefix[of s2 e nurl hrefs] by simp
  from assms Some d t1 show ?thesis
    unfolding try_visit_def
    by (auto simp: Let_def split: option.splits prod.splits dest!: t2 intro!: t3)
qed


lemma visit_toVisit: "prefix (toVisit s) (toVisit (visit e nurl s))"
proof (cases "try_visit e nurl s")
  case (Inl s')
  with try_visit_toVisit[of e nurl s s'] show ?thesis by (simp add: visit_def)
next
  case (Inr s')
  with try_visit_toVisit[of e nurl s s'] show ?thesis by (simp add: visit_def)
qed

lemma visit_goto_fails: "goto e nurl = None \<Longrightarrow> visit e nurl s = s\<lparr>visited := set_add nurl (visited s)\<rparr>"
  by (simp add: visit_def try_visit_def)

text \<open>
  Claim C8. A turn of the loop that takes a URL from the queue which normalises leaves
  it in \<open>visited\<close>, whatever happens in the visit: every exception inside the \<open>try\<close>
  block is a branch of \<open>try_visit\<close>, and \<open>visit\<close> answers each with the \<open>catch\<close>.
  The rest of the queue is still pending afterwards, a URL already visited is dropped
  without a visit, a failed navigation changes nothing but the queue and \<open>visited\<close>,
  and the loop goes on with the state reached.
\<close>

theorem failures_isolated:
  assumes "toVisit s = u # rest" and "normalize e u = Some nurl" and "nurl \<noteq> []"
  shows "nurl \<in> set (visited (iteration e s))
    \<and> prefix rest (toVisit (iteration e s))
    \<and> (nurl \<in> set (visited s) \<longrightarrow> iteration e s = s\<lparr>toVisit := rest\<rparr>)
    \<and> (nurl \<notin> set (visited s) \<longrightarrow> visited (iteration e s) = visited s @ [nurl])
    \<and> (nurl \<notin> set (visited s) \<longrightarrow> goto e nurl = None \<longrightarrow>
          iteration e s = s\<lparr>toVisit := rest, visited := visited s @ [nurl]\<rparr>)
    \<and> (length (visited s) < MAX_PAGES e \<longrightarrow> crawl e s = crawl e (iteration e s))"
proof -
  have it: "iteration e s =
      (if nurl \<in> set (visited s) then s\<lparr>toVisit := rest\<rparr> else visit e nurl (s\<lparr>toVisit := rest\<rparr>))"
    using assms by (simp add: iteration_def Let_def)
  have 1: "nurl \<in> set (visited (iteration e s))"
    by (simp add: it visit_visited set_add_def)
  have 2: "prefix rest (toVisit (iteration e s))"
    using visit_toVisit[of "s\<lparr>toVisit := rest\<rparr>" e nurl] by (simp add: it)
  have 3: "nurl \<notin> set (visited s) \<longrightarrow> visited (iteration e s) = visited s @ [nurl]"
    by (simp add: it visit_visited set_add_def)
  have 4: "nurl \<notin> set (visited s) \<longrightarrow> goto e nurl = None \<longrightarrow>
          iteration e s = s\<lparr>toVisit := rest, visited := visited s @ [nurl]\<rparr>"
    by (simp add: it visit_goto_fails set_add_def)
  have 5: "length (visited s) < MAX_PAGES e \<longrightarrow> crawl e s = crawl e (iteration e s)"
    using assms(1) by (subst crawl.simps) simp
  from it 1 2 3 4 5 show ?thesis by simp
qed

text \<open>With a browser that fails on every page, the start URL ends in \<open>visited\<close>.\<close>

theorem failures_isolated_witness:
  "iteration (ex_env (\<lambda>u. None) (\<lambda>u. None) 5)
      (initial_state (ex_env (\<lambda>u. None) (\<lambda>u. None) 5) empty_disk)
     = (initial_state (ex_env (\<lambda>u. None) (\<lambda>u. None) 5) empty_disk)
         \<lparr>toVisit := [], visited := [''https://example.test/app/'']\<rparr>
   \<and> ''https://example.test/app/''
       \<in> set (visited (iteration (ex_env (\<lambda>u. None) (\<lambda>u. None) 5)
                 (initial_state (ex_env (\<lambda>u. None) (\<lambda>u. None) 5) empty_disk)))"
proof -
  let ?e = "ex_env (\<lambda>u. None) (\<lambda>u. None) 5"
  let ?s = "initial_state ?e empty_disk"
  have 1: "toVisit ?s = ''https://example.test/app/'' # []" by (simp add: initial_state_def ex_env_def)
  have 2: "normalize ?e ''https://example.test/app/'' = Some ''https://example.test/app/''" by code_simp
  have 3: "''https://example.test/app/'' \<noteq> []" by simp
  have 4: "''https://example.test/app/'' \<notin> set (visited ?s)" by (simp add: initial_state_def)
  have 5: "goto ?e ''https://example.test/app/'' = None" by (simp add: ex_env_def)
  from failures_isolated[OF 1 2 3] 4 5 show ?thesis by (simp add: initial_state_def)
qed

section \<open>Downloads\<close>

lemma map_of_obj_assign: "map_of (obj_assign k v m) = (map_of m)(k \<mapsto> v)"
  by (induction m) (auto simp: fun_eq_iff)

lemma keys_obj_assign: "fst ` set (obj_assign k v m) = insert k (fst ` set m)"
  using arg_cong[OF map_of_obj_assign[of k v m], of dom] by (simp add: dom_map_of_conv_image_fst)

lemma writeFileSync_exists: "writeFileSync d p c = Some d' \<Longrightarrow> existsSync d' p"
  by (auto simp: writeFileSync_def existsSync_def split: if_splits)

lemma downloadAndSave_True_exists:
  "downloadAndSave e u lp s = (True, s') \<Longrightarrow> existsSync (disk s') lp"
  by (auto simp: downloadAndSave_def Let_def split: if_splits option.splits dest: writeFileSync_exists)

lemma downloadAndSave_exists:
  "u \<noteq> [] \<Longrightarrow> lp \<noteq> [] \<Longrightarrow> \<not> prefix ''data:'' u \<Longrightarrow> existsSync (disk s) lp
   \<Longrightarrow> downloadAndSave e u lp s = (True, s)"
  by (simp add: downloadAndSave_def)

lemma downloadAndSave_fetched:
  "downloadAndSave e u lp s = (b, s') \<Longrightarrow> fetched s' = fetched s \<or> fetched s' = fetched s @ [u]"
  by (auto simp: downloadAndSave_def Let_def split: if_splits option.splits)

lemma downloadAndSave_fetch_once:
  "\<not> existsSync (disk s) lp \<Longrightarrow> downloadAndSave e u lp s = (True, s') \<Longrightarrow> fetched s' = fetched s @ [u]"
  by (auto simp: downloadAndSave_def Let_def split: if_splits option.splits)

lemma download_asset_already:
  "u \<in> set (assetsDownloaded s) \<Longrightarrow> fst (download_asset e u (s, m)) = s"
  by (simp add: download_asset_def set_add_def Let_def split: option.splits)

text \<open>
  Claim C6. For a URL that is not empty and no \<open>data:\<close> URI (those are refused before
  the disk is looked at) and a local path: when something exists at the path, \<open>downloadAndSave\<close>
  answers \<open>true\<close> and leaves the whole state as it is: no fetch, no write. When nothing
  exists there and the call succeeds, it has fetched the URL exactly once, and a second
  call succeeds and changes nothing. In the asset loop a URL already in
  \<open>assetsDownloaded\<close> is not even handed to \<open>downloadAndSave\<close>.
\<close>

theorem download_idempotent:
  assumes "u \<noteq> []" and "lp \<noteq> []" and "\<not> prefix ''data:'' u"
  shows "(existsSync (disk s) lp \<longrightarrow> downloadAndSave e u lp s = (True, s))
    \<and> (\<forall>s'. \<not> existsSync (disk s) lp \<longrightarrow> downloadAndSave e u lp s = (True, s') \<longrightarrow>
          fetched s' = fetched s @ [u] \<and> downloadAndSave e u lp s' = (True, s'))
    \<and> (u \<in> set (assetsDownloaded s) \<longrightarrow> fst (download_asset e u (s, m)) = s)"
proof -
  have 1: "existsSync (disk s) lp \<longrightarrow> downloadAndSave e u lp s = (True, s)"
    using assms by (simp add: downloadAndSave_exists)
  have 2: "fetched s' = fetched s @ [u] \<and> downloadAndSave e u lp s' = (True, s')"
    if "\<not> existsSync (disk s) lp" "downloadAndSave e u lp s = (True, s')" for s'
    using that assms downloadAndSave_fetch_once[OF that] downloadAndSave_True_exists[OF that(2)]
    by (simp add: downloadAndSave_exists)
  have 3: "u \<in> set (assetsDownloaded s) \<longrightarrow> fst (download_asset e u (s, m)) = s"
    by (simp add: download_asset_already)
  from 1 2 3 show ?thesis by blast
qed

text \<open>
  The image of the example site on an empty disk: the first call fetches and saves it,
  the second gives the same state back.
\<close>

theorem download_idempotent_witness:
  "downloadAndSave (ex_env ex_net (\<lambda>u. None) 5) ''https://example.test/app/img/a.png''
       ''/srv/rendered-site/app/img/a.png'' (initial_state (ex_env ex_net (\<lambda>u. None) 5) empty_disk)
     = (True, (initial_state (ex_env ex_net (\<lambda>u. None) 5) empty_disk)
          \<lparr>fetched := [''https://example.test/app/img/a.png''],
           disk := \<lparr>files = (\<lambda>p. None)(''/srv/rendered-site/app/img/a.png'' \<mapsto> ''PNG''),
                    dirs = {''/srv'', ''/srv/rendered-site'', ''/srv/rendered-site/app'',
                            ''/srv/rendered-site/app/img''}\<rparr>\<rparr>)
   \<and> downloadAndSave (ex_env ex_net (\<lambda>u. None) 5) ''https://example.test/app/img/a.png''
       ''/srv/rendered-site/app/img/a.png''
       ((initial_state (ex_env ex_net (\<lambda>u. None) 5) empty_disk)
          \<lparr>fetched := [''https://example.test/app/img/a.png''],
           disk := \<lparr>files = (\<lambda>p. None)(''/srv/rendered-site/app/img/a.png'' \<mapsto> ''PNG''),
                    dirs = {''/srv'', ''/srv/rendered-site'', ''/srv/rendered-site/app'',
                            ''/srv/rendered-site/app/img''}\<rparr>\<rparr>)
     = (True, (initial_state (ex_env ex_net (\<lambda>u. None) 5) empty_disk)
          \<lparr>fetched := [''https://example.test/app/img/a.png''],
           disk := \<lparr>files = (\<lambda>p. None)(''/srv/rendered-site/app/img/a.png'' \<mapsto> ''PNG''),
                    dirs = {''/srv'', ''/srv/rendered-site'', ''/srv/rendered-site/app'',
                            ''/srv/rendered-site/app/img''}\<rparr>\<rparr>)"
proof -
  let ?e = "ex_env ex_net (\<lambda>u. None) 5"
  let ?u = "''https://example.test/app/img/a.png''"
  let ?lp = "''/srv/rendered-site/app/img/a.png''"
  let ?s = "initial_state ?e empty_disk"
  let ?s' = "?s\<lparr>fetched := [?u],
           disk := \<lparr>files = (\<lambda>p. None)(?lp \<mapsto> ''PNG''),
                    dirs = {''/srv'', ''/srv/rendered-site'', ''/srv/rendered-site/app'',
                            ''/srv/rendered-site/app/img''}\<rparr>\<rparr>"
  have 1: "?u \<noteq> []" by simp
  have 2: "?lp \<noteq> []" by simp
  have 3: "\<not> prefix ''data:'' ?u" by simp
  have 4: "\<not> existsSync (disk ?s) ?lp" by (simp add: initial_state_def empty_disk_def existsSync_def)
  have a: "ancestors ''/srv/rendered-site/app/img''
       = [''/srv'', ''/srv/rendered-site'', ''/srv/rendered-site/app'', ''/srv/rendered-site/app/img'']"
    by code_simp
  have d: "posix_dirname ?lp = ''/srv/rendered-site/app/img''" by code_simp
  have 5: "downloadAndSave ?e ?u ?lp ?s = (True, ?s')"
    by (simp add: downloadAndSave_def initial_state_def empty_disk_def existsSync_def ex_env_def ex_net_def
          ensureDir_def mkdirSync_recursive_def writeFileSync_def d a Let_def insert_commute)
  from download_idempotent[OF 1 2 3, of ?s ?e] 4 5 show ?thesis by blast
qed


section \<open>\<open>data:\<close> URIs\<close>

lemma downloadAndSave_data: "prefix ''data:'' u \<Longrightarrow> downloadAndSave e u lp s = (False, s)"
  by (simp add: downloadAndSave_def)

lemma downloadAndSave_untouched:
  assumes "prefix ''data:'' u" and "untouched u s" and "downloadAndSave e x lp s = (b, s')"
  shows "untouched u s' \<and> (x = u \<longrightarrow> \<not> b)"
proof (cases "x = u")
  case True
  with assms downloadAndSave_data[of u e lp s] show ?thesis by simp
next
  case False
  with assms(2) downloadAndSave_fetched[OF assms(3)] downloadAndSave_frame[OF assms(3)]
  show ?thesis by (auto simp: untouched_def)
qed

lemma untouched_add:
  "untouched u s \<Longrightarrow> x \<noteq> u \<Longrightarrow> untouched u (s\<lparr>assetsDownloaded := set_add x (assetsDownloaded s)\<rparr>)"
  by (simp add: untouched_def set_add_def)

lemma download_asset_cases:
  obtains (skip) "download_asset e x (s, m) = (s, m)"
  | (already) lp where "x \<in> set (assetsDownloaded s)" and "urlToLocalPath e x = Some lp"
      and "download_asset e x (s, m) = (s, obj_assign x lp m)"
  | (failed) lp s1 where "x \<notin> set (assetsDownloaded s)" and "urlToLocalPath e x = Some lp"
      and "downloadAndSave e x lp s = (False, s1)" and "download_asset e x (s, m) = (s1, m)"
  | (saved) lp s1 where "x \<notin> set (assetsDownloaded s)" and "urlToLocalPath e x = Some lp"
      and "downloadAndSave e x lp s = (True, s1)"
      and "download_asset e x (s, m)
           = (s1\<lparr>assetsDownloaded := set_add x (assetsDownloaded s1)\<rparr>, obj_assign x lp m)"
proof (cases "new_URL e x None")
  case None
  then show ?thesis using skip by (simp add: download_asset_def)
next
  case (Some parsed)
  show ?thesis
  proof (cases "urlToLocalPath e x")
    case None
    with Some show ?thesis using skip by (simp add: download_asset_def)
  next
    case lp: (Some lp)
    show ?thesis
    proof (cases "lp = []")
      case True
      with Some lp show ?thesis using skip by (simp add: download_asset_def)
    next
      case False
      show ?thesis
      proof (cases "x \<in> set (assetsDownloaded s)")
        case True
        with Some lp False have "download_asset e x (s, m) = (s, obj_assign x lp m)"
          by (simp add: download_asset_def set_add_def)
        with True lp show ?thesis using already by blast
      next
        case nal: False
        obtain b s1 where d: "downloadAndSave e x lp s = (b, s1)" by (cases "downloadAndSave e x lp s")
        show ?thesis
        proof (cases b)
          case True
          with Some lp False nal d have "download_asset e x (s, m)
             = (s1\<lparr>assetsDownloaded := set_add x (assetsDownloaded s1)\<rparr>, obj_assign x lp m)"
            by (simp add: download_asset_def)
          with True nal lp d show ?thesis using saved[of lp s1] by simp
        next
          case nb: False
          with Some lp False nal d have "download_asset e x (s, m) = (s1, m)"
            by (simp add: download_asset_def)
          with nb nal lp d show ?thesis using failed[of lp s1] by simp
        qed
      qed
    qed
  qed
qed

lemma download_asset_untouched:
  assumes "prefix ''data:'' u" and "untouched u s" and "u \<notin> fst ` set m"
    and "download_asset e x (s, m) = (s', m')"
  shows "untouched u s' \<and> u \<notin> fst ` set m'"
proof (cases rule: download_asset_cases[of e x s m])
  case skip
  with assms show ?thesis by simp
next
  case (already lp)
  with assms(2) have "x \<noteq> u" by (auto simp: untouched_def)
  with already assms show ?thesis by (auto simp: keys_obj_assign)
next
  case (failed lp s1)
  with assms downloadAndSave_untouched[OF assms(1,2) failed(3)] show ?thesis by simp
next
  case (saved lp s1)
  from downloadAndSave_untouched[OF assms(1,2) saved(3)] have "untouched u s1" "x \<noteq> u" by auto
  with saved assms show ?thesis by (auto simp: keys_obj_assign untouched_add)
qed

lemma download_assets_untouched:
  assumes "prefix ''data:'' u"
  shows "untouched u s \<Longrightarrow> u \<notin> fst ` set m \<Longrightarrow> download_assets e xs (s, m) = (s', m')
         \<Longrightarrow> untouched u s' \<and> u \<notin> fst ` set m'"
proof (induction xs arbitrary: s m)
  case Nil
  then show ?case by simp
next
  case (Cons x xs)
  obtain s1 m1 where 1: "download_asset e x (s, m) = (s1, m1)" by (cases "download_asset e x (s, m)")
  from download_asset_untouched[OF assms Cons.prems(1,2) 1]
  have "untouched u s1" "u \<notin> fst ` set m1" by simp_all
  moreover from Cons.prems(3) 1 have "download_assets e xs (s1, m1) = (s', m')" by simp
  ultimately show ?case by (rule Cons.IH)
qed

lemma css_ref_cases:
  obtains (skip) "css_ref e cu cl (m0, r) (s, m, ct) = (s, m, ct)"
  | (known) u lf where "r \<noteq> []" and "new_URL e r (Some cu) = Some u"
      and "href u \<in> set (assetsDownloaded s)" and "map_of m (href u) = Some lf"
      and "css_ref e cu cl (m0, r) (s, m, ct) = (s, m, css_rewrite cl lf m0 ct)"
  | (failed) u lf s1 where "r \<noteq> []" and "new_URL e r (Some cu) = Some u"
      and "href u \<notin> set (assetsDownloaded s)" and "urlToLocalPath e (href u) = Some lf"
      and "downloadAndSave e (href u) lf s = (False, s1)"
      and "css_ref e cu cl (m0, r) (s, m, ct) = (s1, m, ct)"
  | (saved) u lf s1 where "r \<noteq> []" and "new_URL e r (Some cu) = Some u"
      and "href u \<notin> set (assetsDownloaded s)" and "urlToLocalPath e (href u) = Some lf"
      and "downloadAndSave e (href u) lf s = (True, s1)"
      and "css_ref e cu cl (m0, r) (s, m, ct)
           = (s1\<lparr>assetsDownloaded := set_add (href u) (assetsDownloaded s1)\<rparr>,
              obj_assign (href u) lf m, css_rewrite cl lf m0 ct)"
proof (cases "r = []")
  case True
  then show ?thesis using skip by (simp add: css_ref_def)
next
  case nr: False
  show ?thesis
  proof (cases "new_URL e r (Some cu)")
    case None
    with nr show ?thesis using skip by (simp add: css_ref_def)
  next
    case (Some u)
    show ?thesis
    proof (cases "href u \<in> set (assetsDownloaded s)")
      case True
      show ?thesis
      proof (cases "map_of m (href u)")
        case None
        with nr Some True show ?thesis using skip by (simp add: css_ref_def Let_def)
      next
        case lf: (Some lf)
        with nr Some True have "css_ref e cu cl (m0, r) (s, m, ct) = (s, m, css_rewrite cl lf m0 ct)"
          by (simp add: css_ref_def Let_def)
        with nr Some True lf show ?thesis using known by blast
      qed
    next
      case nd: False
      show ?thesis
      proof (cases "urlToLocalPath e (href u)")
        case None
        with nr Some nd show ?thesis using skip by (simp add: css_ref_def Let_def)
      next
        case lf: (Some lf)
        show ?thesis
        proof (cases "lf = []")
          case True
          with nr Some nd lf show ?thesis using skip by (simp add: css_ref_def Let_def)
        next
          case False
          obtain b s1 where d: "downloadAndSave e (href u) lf s = (b, s1)"
            by (cases "downloadAndSave e (href u) lf s")
          show ?thesis
          proof (cases b)
            case True
            with nr Some nd lf False d have "css_ref e cu cl (m0, r) (s, m, ct)
               = (s1\<lparr>assetsDownloaded := set_add (href u) (assetsDownloaded s1)\<rparr>,
                  obj_assign (href u) lf m, css_rewrite cl lf m0 ct)"
              by (simp add: css_ref_def Let_def)
            with True nr Some nd lf d show ?thesis using saved[of u lf s1] by simp
          next
            case nb: False
            with nr Some nd lf False d have "css_ref e cu cl (m0, r) (s, m, ct) = (s1, m, ct)"
              by (simp add: css_ref_def Let_def)
            with nb nr Some nd lf d show ?thesis using failed[of u lf s1] by simp
          qed
        qed
      qed
    qed
  qed
qed

lemma css_ref_untouched:
  assumes "prefix ''data:'' u" and "untouched u s" and "u \<notin> fst ` set m"
    and "css_ref e cu cl (m0, r) (s, m, ct) = (s', m', ct')"
  shows "untouched u s' \<and> u \<notin> fst ` set m'"
proof (cases rule: css_ref_cases[of e cu cl m0 r s m ct])
  case skip
  with assms show ?thesis by simp
next
  case (known pu lf)
  with assms show ?thesis by simp
next
  case (failed pu lf s1)
  with assms downloadAndSave_untouched[OF assms(1,2) failed(5)] show ?thesis by simp
next
  case (saved pu lf s1)
  from downloadAndSave_untouched[OF assms(1,2) saved(5)] have "untouched u s1" "href pu \<noteq> u" by auto
  with saved assms show ?thesis by (auto simp: keys_obj_assign untouched_add)
qed

lemma css_refs_untouched:
  assumes "prefix ''data:'' u"
  shows "untouched u s \<Longrightarrow> u \<notin> fst ` set m \<Longrightarrow> css_refs e cu cl ms (s, m, ct) = (s', m', ct')
         \<Longrightarrow> untouched u s' \<and> u \<notin> fst ` set m'"
proof (induction ms arbitrary: s m ct)
  case Nil
  then show ?case by simp
next
  case (Cons x ms)
  obtain m0 r where x: "x = (m0, r)" by (cases x)
  obtain s1 m1 ct1 where 1: "css_ref e cu cl (m0, r) (s, m, ct) = (s1, m1, ct1)"
    by (cases "css_ref e cu cl (m0, r) (s, m, ct)")
  from css_ref_untouched[OF assms Cons.prems(1,2) 1]
  have "untouched u s1" "u \<notin> fst ` set m1" by simp_all
  moreover from Cons.prems(3) 1 x have "css_refs e cu cl ms (s1, m1, ct1) = (s', m', ct')" by simp
  ultimately show ?case by (rule Cons.IH)
qed

lemma untouched_disk: "untouched u (s\<lparr>disk := d\<rparr>) = untouched u s"
  by (simp add: untouched_def)

lemma scan_css_cases:
  obtains (skip) "scan_css e cu (s, m) = (s, m)"
  | (scanned) cl bytes ct s1 m1 ct1 where "map_of m cu = Some cl" and "readFileSync (disk s) cl = Some bytes"
      and "ct = toString_utf8 e bytes"
      and "css_refs e cu cl (matchAll_url 0 ct) (s, m, ct) = (s1, m1, ct1)"
      and "scan_css e cu (s, m)
           = ((case writeFileSync (disk s1) cl ct1 of None \<Rightarrow> s1 | Some d \<Rightarrow> s1\<lparr>disk := d\<rparr>), m1)"
proof (cases "map_of m cu")
  case None
  then show ?thesis using skip by (simp add: scan_css_def)
next
  case (Some cl)
  show ?thesis
  proof (cases "readFileSync (disk s) cl")
    case None
    with Some show ?thesis using skip by (simp add: scan_css_def)
  next
    case ct: (Some bytes)
    define ct where "ct = toString_utf8 e bytes"
    obtain s1 m1 ct1 where r: "css_refs e cu cl (matchAll_url 0 ct) (s, m, ct) = (s1, m1, ct1)"
      by (cases "css_refs e cu cl (matchAll_url 0 ct) (s, m, ct)")
    with Some ct ct_def have "scan_css e cu (s, m)
           = ((case writeFileSync (disk s1) cl ct1 of None \<Rightarrow> s1 | Some d \<Rightarrow> s1\<lparr>disk := d\<rparr>), m1)"
      by (simp add: scan_css_def Let_def split: option.splits)
    with Some ct ct_def r show ?thesis using scanned by blast
  qed
qed

lemma scan_css_untouched:
  assumes "prefix ''data:'' u" and "untouched u s" and "u \<notin> fst ` set m"
    and "scan_css e cu (s, m) = (s', m')"
  shows "untouched u s' \<and> u \<notin> fst ` set m'"
proof (cases rule: scan_css_cases[of e cu s m])
  case skip
  with assms show ?thesis by simp
next
  case (scanned cl bytes ct s1 m1 ct1)
  from css_refs_untouched[OF assms(1,2,3) scanned(4)] have "untouched u s1" "u \<notin> fst ` set m1"
    by simp_all
  with scanned(5) assms(4) show ?thesis by (auto simp: untouched_disk split: option.splits)
qed

lemma scan_css_files_untouched:
  assumes "prefix ''data:'' u"
  shows "untouched u s \<Longrightarrow> u \<notin> fst ` set m \<Longrightarrow> scan_css_files e cus (s, m) = (s', m')
         \<Longrightarrow> untouched u s' \<and> u \<notin> fst ` set m'"
proof (induction cus arbitrary: s m)
  case Nil
  then show ?case by simp
next
  case (Cons cu cus)
  obtain s1 m1 where 1: "scan_css e cu (s, m) = (s1, m1)" by (cases "scan_css e cu (s, m)")
  from scan_css_untouched[OF assms Cons.prems(1,2) 1]
  have "untouched u s1" "u \<notin> fst ` set m1" by simp_all
  moreover from Cons.prems(3) 1 have "scan_css_files e cus (s1, m1) = (s', m')" by simp
  ultimately show ?case by (rule Cons.IH)
qed


lemma enqueue_link_untouched: "untouched u (enqueue_link e nurl a s) = untouched u s"
  by (simp add: enqueue_link_def untouched_def Let_def split: option.splits)

lemma enqueue_links_untouched: "untouched u (enqueue_links e nurl hrefs s) = untouched u s"
  by (induction hrefs arbitrary: s) (simp_all add: enqueue_link_untouched)

lemma untouched_visited: "untouched u (s\<lparr>visited := v\<rparr>) = untouched u s"
  by (simp add: untouched_def)

lemma untouched_toVisit: "untouched u (s\<lparr>toVisit := q\<rparr>) = untouched u s"
  by (simp add: untouched_def)

lemma try_visit_untouched:
  assumes "prefix ''data:'' u" and "untouched u s"
    and "try_visit e nurl s = Inr s' \<or> try_visit e nurl s = Inl s'"
  shows "untouched u s'"
proof (cases "goto e nurl")
  case None
  with assms show ?thesis by (simp add: try_visit_def)
next
  case (Some pg)
  obtain s1 m1 where d: "download_assets e (assets pg) (s, []) = (s1, m1)"
    by (cases "download_assets e (assets pg) (s, [])")
  from download_assets_untouched[OF assms(1,2) _ d] have 1: "untouched u s1" "u \<notin> fst ` set m1"
    by simp_all
  have 2: "scan_css_files e cus (s1\<lparr>disk := dk\<rparr>, m1) = (s3, m3) \<Longrightarrow> untouched u s3" for cus dk s3 m3
    using scan_css_files_untouched[OF assms(1) _ 1(2), of "s1\<lparr>disk := dk\<rparr>" e cus s3 m3] 1(1)
    by (simp add: untouched_disk)
  from assms(3) Some d 1 show ?thesis
    unfolding try_visit_def
    by (auto simp: Let_def untouched_disk untouched_visited enqueue_links_untouched
             split: option.splits prod.splits dest!: 2)
qed

lemma visit_untouched:
  assumes "prefix ''data:'' u" and "untouched u s"
  shows "untouched u (visit e nurl s)"
proof (cases "try_visit e nurl s")
  case (Inl s')
  with try_visit_untouched[OF assms, of e nurl s'] show ?thesis by (simp add: visit_def untouched_visited)
next
  case (Inr s')
  with try_visit_untouched[OF assms, of e nurl s'] show ?thesis by (simp add: visit_def)
qed

lemma iteration_untouched:
  assumes "prefix ''data:'' u" and "untouched u s"
  shows "untouched u (iteration e s)"
  using assms visit_untouched[OF assms(1), of "s\<lparr>toVisit := tl (toVisit s)\<rparr>" e]
  by (simp add: iteration_def Let_def untouched_toVisit split: option.splits)

lemma crawl_untouched:
  assumes "prefix ''data:'' u"
  shows "untouched u s \<Longrightarrow> untouched u (crawl e s)"
proof (induction e s rule: crawl.induct)
  case (1 e s)
  show ?case
  proof (cases "toVisit s \<noteq> [] \<and> length (visited s) < MAX_PAGES e")
    case True
    with 1 iteration_untouched[OF assms] show ?thesis by (subst crawl.simps) simp
  next
    case False
    with 1 show ?thesis by (subst crawl.simps) auto
  qed
qed

text \<open>
  Claim C9. For a URL that begins with \<open>data:\<close>, \<open>downloadAndSave\<close> answers \<open>false\<close>
  and leaves the state as it is, whatever the local path and the disk. Such a URL that has
  not been fetched or recorded as downloaded stays so, and stays out of \<open>urlToLocal\<close>,
  through the asset loop and the scan of the style sheets, and through the whole crawl.
\<close>

theorem data_uris_rejected:
  assumes "prefix ''data:'' u"
  shows "downloadAndSave e u lp s = (False, s)
    \<and> (untouched u s \<longrightarrow> u \<notin> fst ` set m \<longrightarrow>
          untouched u (fst (download_assets e xs (s, m)))
          \<and> u \<notin> fst ` set (snd (download_assets e xs (s, m)))
          \<and> untouched u (fst (scan_css_files e cus (s, m)))
          \<and> u \<notin> fst ` set (snd (scan_css_files e cus (s, m))))
    \<and> (untouched u s \<longrightarrow> untouched u (crawl e s))"
proof -
  have 1: "downloadAndSave e u lp s = (False, s)"
    using assms by (rule downloadAndSave_data)
  have 2: "untouched u (fst (download_assets e xs (s, m))) \<and> u \<notin> fst ` set (snd (download_assets e xs (s, m)))"
    if "untouched u s" "u \<notin> fst ` set m"
    using download_assets_untouched[OF assms that, of e xs] by (cases "download_assets e xs (s, m)") simp
  have 3: "untouched u (fst (scan_css_files e cus (s, m))) \<and> u \<notin> fst ` set (snd (scan_css_files e cus (s, m)))"
    if "untouched u s" "u \<notin> fst ` set m"
    using scan_css_files_untouched[OF assms that, of e cus] by (cases "scan_css_files e cus (s, m)") simp
  have 4: "untouched u s \<longrightarrow> untouched u (crawl e s)"
    using crawl_untouched[OF assms] by blast
  from 1 2 3 4 show ?thesis by blast
qed

text \<open>
  A page with a \<open>data:\<close> image and the image of the example site: only the latter is
  fetched, saved and mapped.
\<close>

theorem data_uris_rejected_witness:
  "download_assets (ex_env ex_net (\<lambda>u. None) 5)
      [''data:image/png;base64,AAAA'', ''https://example.test/app/img/a.png'']
      (initial_state (ex_env ex_net (\<lambda>u. None) 5) empty_disk, [])
     = ((initial_state (ex_env ex_net (\<lambda>u. None) 5) empty_disk)
          \<lparr>fetched := [''https://example.test/app/img/a.png''],
           assetsDownloaded := [''https://example.test/app/img/a.png''],
           disk := \<lparr>files = (\<lambda>p. None)(''/srv/rendered-site/app/img/a.png'' \<mapsto> ''PNG''),
                    dirs = {''/srv'', ''/srv/rendered-site'', ''/srv/rendered-site/app'',
                            ''/srv/rendered-site/app/img''}\<rparr>\<rparr>,
        [(''https://example.test/app/img/a.png'', ''/srv/rendered-site/app/img/a.png'')])
   \<and> downloadAndSave (ex_env ex_net (\<lambda>u. None) 5) ''data:image/png;base64,AAAA''
         ''/srv/rendered-site/image/png;base64,AAAA'' (initial_state (ex_env ex_net (\<lambda>u. None) 5) empty_disk)
       = (False, initial_state (ex_env ex_net (\<lambda>u. None) 5) empty_disk)
   \<and> untouched ''data:image/png;base64,AAAA''
         (crawl (ex_env ex_net (\<lambda>u. None) 5) (initial_state (ex_env ex_net (\<lambda>u. None) 5) empty_disk))"
proof -
  let ?e = "ex_env ex_net (\<lambda>u. None) 5"
  let ?s = "initial_state ?e empty_disk"
  let ?d = "''data:image/png;base64,AAAA''"
  let ?u = "''https://example.test/app/img/a.png''"
  let ?lp = "''/srv/rendered-site/app/img/a.png''"
  have 1: "prefix ''data:'' ?d" by simp
  have 2: "untouched ?d ?s" by (simp add: untouched_def initial_state_def)
  have l1: "urlToLocalPath ?e ?d = Some ''/srv/rendered-site/image/png;base64,AAAA''" by code_simp
  have l2: "urlToLocalPath ?e ?u = Some ?lp" by code_simp
  have p1: "new_URL ?e ?d None \<noteq> None" by code_simp
  have p2: "new_URL ?e ?u None \<noteq> None" by code_simp
  have a: "ancestors ''/srv/rendered-site/app/img''
       = [''/srv'', ''/srv/rendered-site'', ''/srv/rendered-site/app'', ''/srv/rendered-site/app/img'']"
    by code_simp
  have d: "posix_dirname ?lp = ''/srv/rendered-site/app/img''" by code_simp
  have 3: "downloadAndSave ?e ?u ?lp ?s
     = (True, ?s\<lparr>fetched := [?u],
           disk := \<lparr>files = (\<lambda>p. None)(?lp \<mapsto> ''PNG''),
                    dirs = {''/srv'', ''/srv/rendered-site'', ''/srv/rendered-site/app'',
                            ''/srv/rendered-site/app/img''}\<rparr>\<rparr>)"
    by (simp add: downloadAndSave_def initial_state_def empty_disk_def existsSync_def ex_env_def ex_net_def
          ensureDir_def mkdirSync_recursive_def writeFileSync_def d a Let_def insert_commute)
  have 4: "downloadAndSave ?e ?d lp ?s = (False, ?s)" for lp
    using data_uris_rejected[OF 1, of ?e lp ?s] by simp
  have ad: "assetsDownloaded ?s = []" by (simp add: initial_state_def)
  have A: "download_asset ?e ?d (?s, []) = (?s, [])"
    using p1 by (auto simp: download_asset_def l1 4 ad)
  have B: "download_asset ?e ?u (?s, [])
     = (?s\<lparr>fetched := [?u], assetsDownloaded := [?u],
           disk := \<lparr>files = (\<lambda>p. None)(?lp \<mapsto> ''PNG''),
                    dirs = {''/srv'', ''/srv/rendered-site'', ''/srv/rendered-site/app'',
                            ''/srv/rendered-site/app/img''}\<rparr>\<rparr>, [(?u, ?lp)])"
    using p2 by (auto simp: download_asset_def l2 3 ad set_add_def)
  have 5: "download_assets ?e [?d, ?u] (?s, [])
     = (?s\<lparr>fetched := [?u], assetsDownloaded := [?u],
           disk := \<lparr>files = (\<lambda>p. None)(?lp \<mapsto> ''PNG''),
                    dirs = {''/srv'', ''/srv/rendered-site'', ''/srv/rendered-site/app'',
                            ''/srv/rendered-site/app/img''}\<rparr>\<rparr>, [(?u, ?lp)])"
    by (simp add: A B)
  from data_uris_rejected[OF 1, of ?e _ ?s] 2 4 5 show ?thesis by blast
qed


section \<open>Relative paths\<close>

lemma resolved_segs:
  "resolved p \<longleftrightarrow> (\<exists>segs. (\<forall>s\<in>set segs. proper_seg s) \<and> p = CHR ''/'' # join_with CHR ''/'' segs)"
proof
  assume r: "resolved p"
  then obtain q where p: "p = CHR ''/'' # q" by (cases p) (auto simp: resolved_def)
  show "\<exists>segs. (\<forall>s\<in>set segs. proper_seg s) \<and> p = CHR ''/'' # join_with CHR ''/'' segs"
  proof (cases "q = []")
    case True
    with p show ?thesis by (intro exI[of _ "[]"]) simp
  next
    case False
    with r p have "\<forall>s\<in>set (split_on CHR ''/'' q). proper_seg s" by (simp add: resolved_def)
    with p show ?thesis by (intro exI[of _ "split_on CHR ''/'' q"]) simp
  qed
next
  assume "\<exists>segs. (\<forall>s\<in>set segs. proper_seg s) \<and> p = CHR ''/'' # join_with CHR ''/'' segs"
  then obtain segs where s: "\<forall>s\<in>set segs. proper_seg s" "p = CHR ''/'' # join_with CHR ''/'' segs"
    by blast
  show "resolved p"
  proof (cases "segs = []")
    case True
    with s show ?thesis by (simp add: resolved_def)
  next
    case False
    with s have "split_on CHR ''/'' (join_with CHR ''/'' segs) = segs"
      by (intro split_join) (auto simp: proper_seg_def)
    with s show ?thesis by (simp add: resolved_def)
  qed
qed

lemma join_with_snoc:
  "join_with c (xs @ [x]) = (if xs = [] then x else join_with c xs @ c # x)"
  by (induction c xs rule: join_with.induct) auto

lemma proper_no_slash: "\<forall>s\<in>set segs. proper_seg s \<Longrightarrow> s \<in> set segs \<Longrightarrow> CHR ''/'' \<notin> set s"
  by (auto simp: proper_seg_def)

lemma dirname_resolved:
  assumes "\<forall>s\<in>set segs. proper_seg s"
  shows "posix_dirname (CHR ''/'' # join_with CHR ''/'' segs) = CHR ''/'' # join_with CHR ''/'' (butlast segs)"
proof (cases segs rule: rev_cases)
  case Nil
  then show ?thesis by (simp add: posix_dirname_def)
next
  case (snoc B l)
  have l: "CHR ''/'' \<notin> set l" "l \<noteq> []" using assms snoc by (auto simp: proper_seg_def)
  then have nl: "hd (rev l) \<noteq> CHR ''/''" by (metis hd_rev last_in_set)
  have dw1: "dropWhile (\<lambda>c. c = CHR ''/'') (rev l @ x) = rev l @ x" for x
    using l nl by (cases "rev l") auto
  have dw2: "dropWhile (\<lambda>c. c \<noteq> CHR ''/'') (rev l @ x) = dropWhile (\<lambda>c. c \<noteq> CHR ''/'') x" for x
    using l by (simp add: dropWhile_append)
  show ?thesis
  proof (cases "B = []")
    case True
    with snoc l show ?thesis
      using dw1[of "[]"] dw2[of "[]"] by (simp add: posix_dirname_def Let_def)
  next
    case False
    have jB: "join_with CHR ''/'' B \<noteq> []"
      using join_with_Nil_iff[of B "CHR ''/''"] assms snoc False by (auto simp: proper_seg_def)
    have j: "join_with CHR ''/'' (B @ [l]) = join_with CHR ''/'' B @ CHR ''/'' # l"
      using False by (simp add: join_with_snoc)
    have r: "dropWhile (\<lambda>c. c \<noteq> CHR ''/'') (dropWhile (\<lambda>c. c = CHR ''/'') (rev (join_with CHR ''/'' (B @ [l]))))
        = CHR ''/'' # rev (join_with CHR ''/'' B)"
      using dw1[of "CHR ''/'' # rev (join_with CHR ''/'' B)"] dw2[of "CHR ''/'' # rev (join_with CHR ''/'' B)"]
      by (simp add: j)
    have gen: "posix_dirname (CHR ''/'' # x) = CHR ''/'' # jb"
      if "dropWhile (\<lambda>c. c \<noteq> CHR ''/'') (dropWhile (\<lambda>c. c = CHR ''/'') (rev x)) = CHR ''/'' # rev jb"
        and "jb \<noteq> []" and "take (Suc (length jb)) (CHR ''/'' # x) = CHR ''/'' # jb" for x jb
      using that by (simp add: posix_dirname_def Let_def)
    have "posix_dirname (CHR ''/'' # join_with CHR ''/'' (B @ [l])) = CHR ''/'' # join_with CHR ''/'' B"
      by (rule gen[OF r jB]) (simp add: j)
    with snoc show ?thesis by simp
  qed
qed

lemma drop_common_decomp:
  "drop_common F T = (F', T') \<Longrightarrow> \<exists>C. F = C @ F' \<and> T = C @ T'"
proof (induction F T rule: drop_common.induct)
  case (1 x xs y ys)
  show ?case
  proof (cases "x = y")
    case True
    with 1 obtain C where "xs = C @ F'" "ys = C @ T'" by auto
    with True show ?thesis by (intro exI[of _ "x # C"]) simp
  next
    case False
    with 1 show ?thesis by (intro exI[of _ "[]"]) simp
  qed
qed (auto)

lemma drop_common_Nil: "drop_common F T = ([], []) \<Longrightarrow> F = T"
  using drop_common_decomp by fastforce

lemma norm_abs_segs:
  assumes "\<forall>s\<in>set segs. proper_seg s"
  shows "norm_segs False [] (split_on CHR ''/'' (join_with CHR ''/'' segs)) = segs"
proof (cases "segs = []")
  case True
  then show ?thesis by simp
next
  case False
  with assms have "split_on CHR ''/'' (join_with CHR ''/'' segs) = segs"
    by (intro split_join) (auto simp: proper_seg_def)
  with assms show ?thesis by (simp add: norm_segs_proper_list)
qed

lemma join_inj:
  assumes "\<forall>s\<in>set F. proper_seg s" and "\<forall>s\<in>set T. proper_seg s"
    and "join_with CHR ''/'' F = join_with CHR ''/'' T"
  shows "F = T"
  using norm_abs_segs[OF assms(1)] norm_abs_segs[OF assms(2)] assms(3) by metis

lemma relative_resolved:
  assumes "\<forall>s\<in>set F. proper_seg s" and "\<forall>s\<in>set T. proper_seg s"
  shows "posix_relative (CHR ''/'' # join_with CHR ''/'' F) (CHR ''/'' # join_with CHR ''/'' T)
         = (let (F', T') = drop_common F T in join_with CHR ''/'' (replicate (length F') ''..'' @ T'))"
proof (cases "F = T")
  case True
  have "drop_common T T = ([], [])" by (induction T) auto
  with True show ?thesis by (simp add: posix_relative_def)
next
  case False
  with join_inj[OF assms] have "join_with CHR ''/'' F \<noteq> join_with CHR ''/'' T" by blast
  then show ?thesis
    by (simp add: posix_relative_def norm_abs_segs[OF assms(1)] norm_abs_segs[OF assms(2)] Let_def)
qed

lemma norm_segs_pops:
  "\<forall>s\<in>set F'. proper_seg s \<Longrightarrow>
   norm_segs a (C @ F') (replicate (length F') ''..'' @ rest) = norm_segs a C rest"
proof (induction F' arbitrary: rest rule: rev_induct)
  case Nil
  show ?case by simp
next
  case (snoc x F')
  have x: "x \<noteq> ''..''" using snoc.prems by (simp add: proper_seg_def)
  have "replicate (length (F' @ [x])) ''..'' @ rest = ''..'' # (replicate (length F') ''..'' @ rest)"
    by simp
  then have "norm_segs a (C @ F' @ [x]) (replicate (length (F' @ [x])) ''..'' @ rest)
       = norm_segs a (C @ F') (replicate (length F') ''..'' @ rest)"
    using x by (simp add: butlast_append)
  with snoc show ?case by simp
qed


lemma norm_from_Nil:
  "\<forall>s\<in>set S. CHR ''/'' \<notin> set s \<Longrightarrow> \<forall>s\<in>set (norm_segs False [] S). s \<noteq> []"
  using norm_segs_proper[of "[]" S] by (auto simp: proper_seg_def)

lemma normalize_abs:
  "posix_normalize (CHR ''/'' # r) =
     (let S = norm_segs False [] (split_on CHR ''/'' r)
      in if S = [] then ''/''
         else CHR ''/'' # join_with CHR ''/'' S @ (if r \<noteq> [] \<and> last r = CHR ''/'' then ''/'' else []))"
proof -
  let ?S = "norm_segs False [] (split_on CHR ''/'' r)"
  have "\<forall>s\<in>set ?S. s \<noteq> []" by (rule norm_from_Nil) (auto dest: split_on_free)
  then have e: "join_with CHR ''/'' ?S = [] \<longleftrightarrow> ?S = []" by (rule join_with_Nil_iff)
  show ?thesis
  proof (cases "r = []")
    case True
    then show ?thesis by (simp add: posix_normalize_def)
  next
    case False
    with e show ?thesis by (simp add: posix_normalize_def Let_def)
  qed
qed

lemma join_with_Cons_not_Nil: "ss \<noteq> [] \<Longrightarrow> join_with c (t # ss) \<noteq> []"
  by (cases ss) auto

lemma last_join:
  "X \<noteq> [] \<Longrightarrow> last X \<noteq> [] \<Longrightarrow> last (join_with c X) = last (last X)"
  by (induction c X rule: join_with.induct) (auto simp: join_with_Cons_not_Nil)

lemma join_proper_last:
  assumes "S \<noteq> []" and "\<forall>s\<in>set S. s \<noteq> [] \<and> CHR ''/'' \<notin> set s"
  shows "join_with CHR ''/'' S \<noteq> [] \<and> last (join_with CHR ''/'' S) \<noteq> CHR ''/''"
proof -
  have l: "last S \<noteq> []" "CHR ''/'' \<notin> set (last S)" using assms by auto
  then have "last (last S) \<noteq> CHR ''/''" by (metis last_in_set)
  with assms l show ?thesis
    using join_with_Nil_iff[of S "CHR ''/''"] by (simp add: last_join)
qed

lemma normalize_resolved:
  assumes "\<forall>s\<in>set S. proper_seg s"
  shows "posix_normalize (CHR ''/'' # join_with CHR ''/'' S) = CHR ''/'' # join_with CHR ''/'' S"
proof (cases "S = []")
  case True
  then show ?thesis by (simp add: normalize_abs)
next
  case False
  with assms have "join_with CHR ''/'' S \<noteq> [] \<and> last (join_with CHR ''/'' S) \<noteq> CHR ''/''"
    by (intro join_proper_last) (auto simp: proper_seg_def)
  with False show ?thesis by (simp add: normalize_abs norm_abs_segs[OF assms])
qed

lemma split_resolved_append:
  assumes "\<forall>s\<in>set D. proper_seg s" and "X \<noteq> []" and "\<forall>s\<in>set X. s \<noteq> [] \<and> CHR ''/'' \<notin> set s"
  shows "norm_segs False [] (split_on CHR ''/'' (join_with CHR ''/'' D @ CHR ''/'' # join_with CHR ''/'' X))
         = norm_segs False D X"
proof -
  have "split_on CHR ''/'' (join_with CHR ''/'' X) = X"
    using assms by (intro split_join) auto
  then show ?thesis
    by (simp add: split_on_append_sep norm_segs_append norm_abs_segs[OF assms(1)])
qed

lemma join_relative_segs:
  assumes Cp: "\<forall>s\<in>set C. proper_seg s" and Fp: "\<forall>s\<in>set F'. proper_seg s"
    and Tp: "\<forall>s\<in>set T'. proper_seg s"
  shows "posix_join (CHR ''/'' # join_with CHR ''/'' (C @ F'))
           (join_with CHR ''/'' (replicate (length F') ''..'' @ T'))
         = CHR ''/'' # join_with CHR ''/'' (C @ T')"
proof -
  let ?X = "replicate (length F') ''..'' @ T'"
  have D: "\<forall>s\<in>set (C @ F'). proper_seg s" and T: "\<forall>s\<in>set (C @ T'). proper_seg s"
    using Cp Fp Tp by auto
  have X: "\<forall>s\<in>set ?X. s \<noteq> [] \<and> CHR ''/'' \<notin> set s"
  proof
    fix s assume "s \<in> set ?X"
    then consider "s = ''..''" | "s \<in> set T'" by auto
    then show "s \<noteq> [] \<and> CHR ''/'' \<notin> set s"
    proof cases
      case 1
      then show ?thesis by simp
    next
      case 2
      with Tp have "proper_seg s" by blast
      then show ?thesis by (simp add: proper_seg_def)
    qed
  qed
  show ?thesis
  proof (cases "?X = []")
    case True
    then have e: "F' = []" "T' = []" by simp_all
    show ?thesis
      unfolding e by (simp add: posix_join_def normalize_resolved[OF Cp])
  next
    case False
    from join_proper_last[OF False X]
    have jx: "join_with CHR ''/'' ?X \<noteq> []" "last (join_with CHR ''/'' ?X) \<noteq> CHR ''/''" by simp_all
    have "norm_segs False (C @ F') ?X = norm_segs False C T'"
      by (rule norm_segs_pops[OF Fp])
    also have "\<dots> = C @ T'" by (rule norm_segs_proper_list[OF Tp])
    finally have n: "norm_segs False (C @ F') ?X = C @ T'" .
    have n2: "norm_segs False [] (split_on CHR ''/'' (join_with CHR ''/'' (C @ F') @ CHR ''/'' # join_with CHR ''/'' ?X))
       = C @ T'"
      using split_resolved_append[OF D False X] n by simp
    have l: "last (join_with CHR ''/'' (C @ F') @ CHR ''/'' # join_with CHR ''/'' ?X) \<noteq> CHR ''/''"
      using jx by simp
    have "posix_join (CHR ''/'' # join_with CHR ''/'' (C @ F')) (join_with CHR ''/'' ?X)
          = posix_normalize (CHR ''/'' # (join_with CHR ''/'' (C @ F') @ CHR ''/'' # join_with CHR ''/'' ?X))"
      using jx(1) by (simp add: posix_join_def)
    also have "\<dots> = CHR ''/'' # join_with CHR ''/'' (C @ T')"
      unfolding normalize_abs n2 Let_def using l by (cases "C @ T' = []") simp_all
    finally show ?thesis .
  qed
qed

lemma join_relative_resolved:
  assumes D: "\<forall>s\<in>set D. proper_seg s" and T: "\<forall>s\<in>set T. proper_seg s"
  shows "posix_join (CHR ''/'' # join_with CHR ''/'' D)
           (posix_relative (CHR ''/'' # join_with CHR ''/'' D) (CHR ''/'' # join_with CHR ''/'' T))
         = CHR ''/'' # join_with CHR ''/'' T"
proof -
  obtain F' T' where dc: "drop_common D T = (F', T')" by (cases "drop_common D T")
  then obtain C where C: "D = C @ F'" "T = C @ T'" using drop_common_decomp by blast
  have p: "\<forall>s\<in>set C. proper_seg s" "\<forall>s\<in>set F'. proper_seg s" "\<forall>s\<in>set T'. proper_seg s"
    using D T unfolding C by auto
  have rel: "posix_relative (CHR ''/'' # join_with CHR ''/'' D) (CHR ''/'' # join_with CHR ''/'' T)
             = join_with CHR ''/'' (replicate (length F') ''..'' @ T')"
    unfolding relative_resolved[OF D T] dc by simp
  show ?thesis
    unfolding rel unfolding C by (rule join_relative_segs[OF p])
qed

lemma makeRelativeForHtml_posix:
  "makeRelativeForHtml htmlFilePath assetLocalPath = posix_relative (posix_dirname htmlFilePath) assetLocalPath"
  by (simp add: makeRelativeForHtml_def path_sep_def)

lemma relative_resolves_back:
  assumes "resolved htmlFilePath" and "resolved assetLocalPath"
  shows "posix_join (posix_dirname htmlFilePath) (makeRelativeForHtml htmlFilePath assetLocalPath)
         = assetLocalPath"
proof -
  from assms obtain H T where H: "\<forall>s\<in>set H. proper_seg s" "htmlFilePath = CHR ''/'' # join_with CHR ''/'' H"
    and T: "\<forall>s\<in>set T. proper_seg s" "assetLocalPath = CHR ''/'' # join_with CHR ''/'' T"
    unfolding resolved_segs by blast
  have B: "\<forall>s\<in>set (butlast H). proper_seg s" using H(1) by (auto dest: in_set_butlastD)
  show ?thesis
    unfolding makeRelativeForHtml_posix H(2) T(2) dirname_resolved[OF H(1)]
    by (rule join_relative_resolved[OF B T(1)])
qed

lemma stem_no_trailing_slash: "stem d \<noteq> [] \<Longrightarrow> last (stem d) \<noteq> CHR ''/''"
proof (cases "suffix ''/'' d")
  case True
  assume "stem d \<noteq> []"
  have "stem d = d @ ''index'' \<or> stem d = drop 1 (d @ ''index'')"
    using True by (simp add: stem_def Let_def)
  moreover have "last (drop 1 (d @ ''index'')) = CHR ''x''"
    by (cases d) simp_all
  ultimately show ?thesis by auto
next
  case False
  assume ne: "stem d \<noteq> []"
  have l: "d = [] \<or> last d \<noteq> CHR ''/''"
    using False by (cases d rule: rev_cases) (auto simp: suffix_def)
  have s: "stem d = d \<or> stem d = drop 1 d" using False by (simp add: stem_def Let_def)
  from s show ?thesis
  proof
    assume "stem d = d"
    with ne l show ?thesis by auto
  next
    assume e: "stem d = drop 1 d"
    with ne have "drop 1 d \<noteq> []" by simp
    then have "last (drop 1 d) = last d" by (cases d) auto
    with e ne l show ?thesis by auto
  qed
qed

lemma posix_join_OUT_resolved:
  assumes "x = [] \<or> last x \<noteq> CHR ''/''"
  shows "resolved (posix_join (OUTPUT_DIR e) x)"
proof (cases "x = []")
  case True
  then have "posix_join (OUTPUT_DIR e) x = CHR ''/'' # join_with CHR ''/'' (out_segs e)"
    by (simp add: posix_join_def OUTPUT_DIR_segs normalize_resolved[OF out_segs_proper])
  then show ?thesis unfolding resolved_segs using out_segs_proper by blast
next
  case False
  let ?r = "join_with CHR ''/'' (out_segs e) @ CHR ''/'' # x"
  let ?S = "norm_segs False [] (split_on CHR ''/'' ?r)"
  have p: "\<forall>s\<in>set ?S. proper_seg s"
    by (rule norm_segs_proper) (auto dest: split_on_free)
  have l: "last ?r \<noteq> CHR ''/''" using False assms by simp
  have "posix_join (OUTPUT_DIR e) x = posix_normalize (CHR ''/'' # ?r)"
    using False by (simp add: posix_join_def OUTPUT_DIR_segs)
  also have "\<dots> = CHR ''/'' # join_with CHR ''/'' ?S"
    unfolding normalize_abs Let_def using l by (cases "?S = []") simp_all
  finally show ?thesis unfolding resolved_segs using p by blast
qed

lemma urlToLocalPath_resolved: "urlToLocalPath e k = Some lp \<Longrightarrow> resolved lp"
proof -
  assume a: "urlToLocalPath e k = Some lp"
  then obtain u d where u: "new_URL e k None = Some u" "decodeURIComponent e (pathname u) = Some d"
    by (auto simp: urlToLocalPath_stem split: option.splits)
  let ?x = "if posix_extname (stem d) = [] \<and> search u \<noteq> []
            then stem d @ ''_'' @ hex_of_string (search u) else stem d"
  from a u have lp: "lp = posix_join (OUTPUT_DIR e) ?x" by (simp add: urlToLocalPath_stem)
  have h: "s \<noteq> [] \<Longrightarrow> last (hex_of_string s) \<noteq> CHR ''/'' \<and> hex_of_string s \<noteq> []" for s
  proof -
    assume "s \<noteq> []"
    then have ne: "hex_of_string s \<noteq> []" by (cases s) (simp_all add: hex_of_string_def hex_of_char_def)
    then have "last (hex_of_string s) \<in> set (hex_of_string s)" by simp
    with hex_no_slash[of s] ne show ?thesis by metis
  qed
  have "?x = [] \<or> last ?x \<noteq> CHR ''/''"
    using stem_no_trailing_slash[of d] h[of "search u"] by auto
  then show ?thesis unfolding lp by (rule posix_join_OUT_resolved)
qed

section \<open>Rewriting of pages\<close>

lemma get_substitution_plain:
  "CHR ''$'' \<notin> set r \<Longrightarrow> get_substitution m b a r = r"
  by (induction r) auto

lemma replace_from_plain:
  "CHR ''$'' \<notin> set r \<Longrightarrow> replace_from p r pre t = replace_from p r [] t"
proof (induction t arbitrary: pre rule: length_induct)
  case (1 t)
  have IH: "length ys < length t \<Longrightarrow> replace_from p r x ys = replace_from p r [] ys" for x ys
    using "1.IH" "1.prems" by blast
  have a: "replace_from p r x (drop (length p) t) = replace_from p r [] (drop (length p) t)"
    if "t \<noteq> []" "p \<noteq> []" for x
  proof (rule IH)
    from that show "length (drop (length p) t) < length t" by (cases t; cases p) simp_all
  qed
  have b: "replace_from p r x cs = replace_from p r [] cs" if "t = c # cs" for x c cs
    by (rule IH) (simp add: that)
  show ?case
  proof (cases t)
    case Nil
    with 1(2) show ?thesis
      by (subst (1 2) replace_from.simps) (simp add: get_substitution_plain)
  next
    case (Cons c cs)
    show ?thesis
    proof (cases "p = []")
      case True
      with Cons 1(2) b[OF Cons, of "pre @ [c]"] b[OF Cons, of "[c]"] show ?thesis
        by (subst (1 2) replace_from.simps) (simp add: get_substitution_plain)
    next
      case False
      with Cons 1(2) a[of "pre @ p"] a[of p] b[OF Cons, of "pre @ [c]"] b[OF Cons, of "[c]"]
      show ?thesis
        by (subst (1 2) replace_from.simps) (simp add: get_substitution_plain)
    qed
  qed
qed

lemma replace_global_Nil: "p \<noteq> [] \<Longrightarrow> replace_global p r [] = []"
  unfolding replace_global_def by (subst replace_from.simps) simp

lemma replace_global_step:
  assumes "p \<noteq> []" and "CHR ''$'' \<notin> set r"
  shows "replace_global p r (c # cs) =
           (if prefix p (c # cs) then r @ replace_global p r (drop (length p) (c # cs))
            else c # replace_global p r cs)"
  unfolding replace_global_def
  using assms replace_from_plain[OF assms(2), of p p] replace_from_plain[OF assms(2), of p "[c]"]
  by (subst replace_from.simps) (simp add: get_substitution_plain)


lemma replace_global_exact:
  assumes "p \<noteq> []" and "CHR ''$'' \<notin> set r"
  shows "replace_global p r p = r"
proof -
  from assms(1) obtain c cs where p: "p = c # cs" by (cases p) auto
  have "replace_global p r (c # cs) =
           (if prefix p (c # cs) then r @ replace_global p r (drop (length p) (c # cs))
            else c # replace_global p r cs)"
    by (rule replace_global_step[OF assms])
  then show ?thesis using p replace_global_Nil[OF assms(1)] by simp
qed

lemma replace_global_inert:
  assumes "p \<noteq> []" and "CHR ''$'' \<notin> set r"
  shows "\<not> sublist p f \<Longrightarrow> replace_global p r f = f"
proof (induction f)
  case Nil
  show ?case by (rule replace_global_Nil[OF assms(1)])
next
  case (Cons c cs)
  have 1: "\<not> prefix p (c # cs)" using Cons.prems by (auto dest: prefix_imp_sublist)
  have 2: "\<not> sublist p cs" using Cons.prems by (auto simp: sublist_Cons_right)
  show ?case using 1 Cons.IH[OF 2] by (simp add: replace_global_step[OF assms])
qed

lemma prefix_before_delim:
  assumes "prefix p (x @ d # y)" and "d \<notin> set p"
  shows "prefix p x"
proof -
  from assms(1) consider "prefix p x" | us where "p = x @ us" "prefix us (d # y)"
    by (auto simp: prefix_append)
  then show ?thesis
  proof cases
    case 1
    then show ?thesis .
  next
    case 2
    with assms(2) show ?thesis by (cases us) auto
  qed
qed

lemma replace_global_unfold:
  assumes "p \<noteq> []" and "CHR ''$'' \<notin> set r" and "t \<noteq> []"
  shows "replace_global p r t =
           (if prefix p t then r @ replace_global p r (drop (length p) t)
            else hd t # replace_global p r (tl t))"
proof -
  from assms(3) obtain c cs where t: "t = c # cs" by (cases t) auto
  show ?thesis unfolding t using replace_global_step[OF assms(1,2), of c cs] by simp
qed

lemma replace_global_delim:
  assumes "p \<noteq> []" and "CHR ''$'' \<notin> set r" and "d \<notin> set p"
  shows "replace_global p r (x @ d # y) = replace_global p r x @ d # replace_global p r y"
proof (induction x rule: length_induct)
  case (1 x)
  have IH: "length x' < length x \<Longrightarrow>
      replace_global p r (x' @ d # y) = replace_global p r x' @ d # replace_global p r y" for x'
    using "1.IH" by blast
  have ne: "x @ d # y \<noteq> []" by simp
  show ?case
  proof (cases "x = []")
    case True
    have "\<not> prefix p (d # y)" using assms(1,3) by (cases p) auto
    with True show ?thesis
      using replace_global_unfold[OF assms(1,2), of "d # y"] by (simp add: replace_global_Nil[OF assms(1)])
  next
    case False
    show ?thesis
    proof (cases "prefix p x")
      case True
      then have le: "length p \<le> length x" by (rule prefix_length_le)
      have lt: "length (drop (length p) x) < length x" using False assms(1) by (cases p; cases x) auto
      have pre: "prefix p (x @ d # y)" using True by (rule prefix_prefix)
      have dr: "drop (length p) (x @ d # y) = drop (length p) x @ d # y"
        using le by simp
      have "replace_global p r (x @ d # y)
            = r @ replace_global p r (drop (length p) x @ d # y)"
        using replace_global_unfold[OF assms(1,2) ne] pre dr by simp
      also have "\<dots> = r @ replace_global p r (drop (length p) x) @ d # replace_global p r y"
        using IH[OF lt] by simp
      also have "\<dots> = replace_global p r x @ d # replace_global p r y"
        using replace_global_unfold[OF assms(1,2) False] True by simp
      finally show ?thesis .
    next
      case np: False
      have np': "\<not> prefix p (x @ d # y)"
        using np prefix_before_delim[of p x d y] assms(3) by auto
      have hx: "hd (x @ d # y) = hd x" "tl (x @ d # y) = tl x @ d # y" using False by simp_all
      have lt: "length (tl x) < length x" using False by (cases x) auto
      have "replace_global p r (x @ d # y) = hd x # replace_global p r (tl x @ d # y)"
        using replace_global_unfold[OF assms(1,2) ne] np' hx by simp
      also have "\<dots> = hd x # replace_global p r (tl x) @ d # replace_global p r y"
        using IH[OF lt] by simp
      also have "\<dots> = replace_global p r x @ d # replace_global p r y"
        using replace_global_unfold[OF assms(1,2) False] np by simp
      finally show ?thesis .
    qed
  qed
qed

lemma replace_global_pieces:
  assumes "p \<noteq> []" and "CHR ''$'' \<notin> set r"
  shows "\<forall>(d, f)\<in>set rest. d \<notin> set p \<Longrightarrow>
    replace_global p r (join_pieces f0 rest)
      = join_pieces (replace_global p r f0) (map_pieces (replace_global p r) rest)"
proof (induction rest arbitrary: f0)
  case Nil
  show ?case by (simp add: map_pieces_def)
next
  case (Cons a rest)
  obtain d f where a: "a = (d, f)" by (cases a)
  with Cons.prems have d: "d \<notin> set p" and r: "\<forall>(d, f)\<in>set rest. d \<notin> set p" by auto
  show ?case
    using Cons.IH[OF r, of f] a
    by (simp add: replace_global_delim[OF assms d] map_pieces_def)
qed


lemma join_pieces_cong:
  "\<forall>f\<in>set (f0 # map snd rest). g f = h f \<Longrightarrow>
   join_pieces (g f0) (map_pieces g rest) = join_pieces (h f0) (map_pieces h rest)"
proof (induction rest arbitrary: f0)
  case Nil
  then show ?case by (simp add: map_pieces_def)
next
  case (Cons a rest)
  obtain d f where a: "a = (d, f)" by (cases a)
  from Cons.prems a have "\<forall>f'\<in>set (f # map snd rest). g f' = h f'" and "g f0 = h f0" by auto
  with Cons.IH[of f] a show ?case by (simp add: map_pieces_def)
qed

lemma map_pieces_snd: "map snd (map_pieces g rest) = map g (map snd rest)"
  by (induction rest) (auto simp: map_pieces_def)

lemma map_pieces_delims: "(\<forall>(d, f)\<in>set (map_pieces g rest). P d) = (\<forall>(d, f)\<in>set rest. P d)"
  by (induction rest) (auto simp: map_pieces_def)

lemma map_pieces_comp: "map_pieces g (map_pieces h rest) = map_pieces (\<lambda>f. g (h f)) rest"
  by (induction rest) (auto simp: map_pieces_def)

lemma inert_Nil: "inert e [] f"
  by (simp add: inert_def)

lemma inert_Cons:
  "inert e ((k, lp) # rest) f \<longleftrightarrow>
     (\<not> sublist k f \<and> (case new_URL e k None of None \<Rightarrow> True | Some u \<Rightarrow> \<not> sublist (origin_less u) f))
     \<and> inert e rest f"
  by (auto simp: inert_def)

lemma inert_not_key: "inert e entries f \<Longrightarrow> f \<notin> fst ` set entries"
  by (auto simp: inert_def)

lemma Ball_set_map: "(\<forall>y\<in>set (map h xs). P y) \<longleftrightarrow> (\<forall>x\<in>set xs. P (h x))"
  by (induction xs) auto

lemma rewrite_pieces:
  "rewritable e D hp entries (f0 # map snd rest) \<Longrightarrow> \<forall>(d, f)\<in>set rest. D d \<Longrightarrow>
    rewrite_html e hp entries (join_pieces f0 rest)
      = Some (join_pieces (rewritten_piece hp entries f0) (map_pieces (rewritten_piece hp entries) rest))"
proof (induction entries arbitrary: f0 rest)
  case Nil
  have "join_pieces (rewritten_piece hp [] f0) (map_pieces (rewritten_piece hp []) rest)
        = join_pieces (id f0) (map_pieces id rest)"
    by (rule join_pieces_cong[where g="rewritten_piece hp []" and h=id]) (simp add: rewritten_piece_def)
  also have "\<dots> = join_pieces f0 rest" by (simp add: map_pieces_def)
  finally show ?case by simp
next
  case (Cons a entries)
  obtain k lp where a: "a = (k, lp)" by (cases a)
  let ?rel = "makeRelativeForHtml hp lp"
  let ?pieces = "f0 # map snd rest"
  let ?h = "\<lambda>f. if f = k then ?rel else f"
  from Cons.prems(1) a
  have k: "k \<noteq> []" "\<forall>c\<in>set k. \<not> D c"
    and dollar: "CHR ''$'' \<notin> set ?rel"
    and rel_inert: "inert e ((k, lp) # entries) ?rel"
    and ord: "\<forall>(k', lp')\<in>set entries. inert e [(k, lp)] k'" "ordered_keys e entries"
    and pcs: "\<forall>f\<in>set ?pieces. f \<in> fst ` set ((k, lp) # entries) \<or> inert e ((k, lp) # entries) f"
    and others: "\<forall>(k', lp')\<in>set entries.
        k' \<noteq> [] \<and> (\<forall>c\<in>set k'. \<not> D c)
        \<and> (case new_URL e k' None of None \<Rightarrow> False | Some u \<Rightarrow> \<forall>c\<in>set (origin_less u). \<not> D c)
        \<and> CHR ''$'' \<notin> set (makeRelativeForHtml hp lp')
        \<and> inert e ((k, lp) # entries) (makeRelativeForHtml hp lp')"
    by (auto simp: rewritable_def)
  from Cons.prems(1) a obtain u where u: "new_URL e k None = Some u" "\<forall>c\<in>set (origin_less u). \<not> D c"
    by (auto simp: rewritable_def split: option.splits)
  have o: "origin_less u \<noteq> []" by (simp add: origin_less_def)
  have dk: "\<forall>(d, f)\<in>set rest. d \<notin> set k" using Cons.prems(2) k(2) by auto
  have "do": "\<forall>(d, f)\<in>set rest. d \<notin> set (origin_less u)" using Cons.prems(2) u(2) by auto
  \<comment> \<open>each piece is the key, or free of both patterns of the key\<close>
  have piece: "f = k \<or> inert e [(k, lp)] f" if "f \<in> set ?pieces" for f
  proof -
    from pcs that have "f \<in> fst ` set ((k, lp) # entries) \<or> inert e ((k, lp) # entries) f" by blast
    then show ?thesis using ord(1) by (auto simp: inert_Cons inert_Nil)
  qed
  have s1: "replace_global k ?rel f = ?h f" if "f \<in> set ?pieces" for f
    using piece[OF that] u(1)
    by (auto simp: replace_global_exact[OF k(1) dollar] replace_global_inert[OF k(1) dollar] inert_Cons inert_Nil)
  have rel_o: "\<not> sublist (origin_less u) ?rel"
    using rel_inert u(1) by (simp add: inert_Cons inert_Nil)
  have s2: "replace_global (origin_less u) ?rel (?h f) = ?h f" if "f \<in> set ?pieces" for f
    using piece[OF that] u(1) rel_o
    by (auto simp: replace_global_inert[OF o dollar] inert_Cons inert_Nil)
  have html1: "replace_global k ?rel (join_pieces f0 rest) = join_pieces (?h f0) (map_pieces ?h rest)"
    unfolding replace_global_pieces[OF k(1) dollar dk]
    by (rule join_pieces_cong[where g="replace_global k ?rel" and h="?h"]) (use s1 in blast)
  have dh: "\<forall>(d, f)\<in>set (map_pieces ?h rest). d \<notin> set (origin_less u)"
    using "do" by (simp add: map_pieces_delims)
  have html2: "replace_global (origin_less u) ?rel (join_pieces (?h f0) (map_pieces ?h rest))
        = join_pieces (?h f0) (map_pieces ?h rest)"
    unfolding replace_global_pieces[OF o dollar dh] map_pieces_comp
    by (rule join_pieces_cong[where g="\<lambda>f. replace_global (origin_less u) ?rel (?h f)" and h="?h"])
       (use s2 in blast)
  \<comment> \<open>the remaining entries work on the pieces as they are now\<close>
  have rw': "rewritable e D hp entries (?h f0 # map snd (map_pieces ?h rest))"
  proof -
    have "\<forall>f\<in>set ?pieces. ?h f \<in> fst ` set entries \<or> inert e entries (?h f)"
    proof
      fix f assume f: "f \<in> set ?pieces"
      show "?h f \<in> fst ` set entries \<or> inert e entries (?h f)"
      proof (cases "f = k")
        case True
        with rel_inert show ?thesis by (simp add: inert_Cons inert_Nil)
      next
        case False
        with pcs f show ?thesis by (auto simp: inert_Cons inert_Nil)
      qed
    qed
    moreover have "?h f0 # map snd (map_pieces ?h rest) = map ?h ?pieces"
      by (simp add: map_pieces_snd)
    ultimately have "\<forall>f\<in>set (?h f0 # map snd (map_pieces ?h rest)). f \<in> fst ` set entries \<or> inert e entries f"
      by (simp only: Ball_set_map)
    with others ord(2) show ?thesis
      unfolding rewritable_def by (auto simp: inert_Cons inert_Nil)
  qed
  have dl': "\<forall>(d, f)\<in>set (map_pieces ?h rest). D d"
    using Cons.prems(2) by (simp add: map_pieces_delims)
  have IH: "rewrite_html e hp entries (join_pieces (?h f0) (map_pieces ?h rest))
      = Some (join_pieces (rewritten_piece hp entries (?h f0))
                (map_pieces (rewritten_piece hp entries) (map_pieces ?h rest)))"
    by (rule Cons.IH[OF rw' dl'])
  have comp: "rewritten_piece hp entries (?h f) = rewritten_piece hp ((k, lp) # entries) f" for f
  proof (cases "f = k")
    case True
    have "?rel \<notin> fst ` set entries" using rel_inert by (auto simp: inert_Cons inert_Nil dest: inert_not_key)
    then have "map_of entries ?rel = None" by (simp add: map_of_eq_None_iff)
    with True show ?thesis by (simp add: rewritten_piece_def)
  next
    case False
    then show ?thesis by (simp add: rewritten_piece_def)
  qed
  have "rewrite_html e hp ((k, lp) # entries) (join_pieces f0 rest)
        = rewrite_html e hp entries
            (replace_global (origin_less u) ?rel (replace_global k ?rel (join_pieces f0 rest)))"
    using u(1) by (simp add: Let_def origin_less_def)
  also have "\<dots> = rewrite_html e hp entries (join_pieces (?h f0) (map_pieces ?h rest))"
    by (simp only: html1 html2)
  also have "\<dots> = Some (join_pieces (rewritten_piece hp ((k, lp) # entries) f0)
                (map_pieces (rewritten_piece hp ((k, lp) # entries)) rest))"
    unfolding IH map_pieces_comp comp ..
  finally show ?case using a by simp
qed


lemma ordered_keys_map_of:
  "ordered_keys e entries \<Longrightarrow> (k, lp) \<in> set entries \<Longrightarrow> map_of entries k = Some lp"
proof (induction entries)
  case Nil
  then show ?case by simp
next
  case (Cons a entries)
  obtain k' lp' where a: "a = (k', lp')" by (cases a)
  show ?case
  proof (cases "k' = k")
    case True
    have "(k, lp) \<notin> set entries"
    proof
      assume "(k, lp) \<in> set entries"
      with Cons.prems(1) a True have "inert e [(k, lp')] k" by auto
      then show False by (simp add: inert_Cons)
    qed
    with Cons.prems(2) a True show ?thesis by simp
  next
    case False
    with Cons a show ?thesis by auto
  qed
qed

lemma rewritten_piece_key:
  "ordered_keys e entries \<Longrightarrow> (k, lp) \<in> set entries \<Longrightarrow>
   rewritten_piece hp entries k = makeRelativeForHtml hp lp"
  by (simp add: rewritten_piece_def ordered_keys_map_of)







section \<open>Query strings on paths with an extension\<close>

lemma posix_normalize_not_Nil: "posix_normalize p \<noteq> []"
  by (simp add: posix_normalize_def Let_def)

lemma posix_join_not_Nil: "posix_join a b \<noteq> []"
  by (simp add: posix_join_def posix_normalize_not_Nil Let_def)

lemma download_asset_exists:
  assumes "new_URL e b None = Some ub" and "urlToLocalPath e b = Some lp" and "lp \<noteq> []"
    and "b \<noteq> []" and "\<not> prefix ''data:'' b" and "existsSync (disk s) lp"
  shows "download_asset e b (s, m)
         = (s\<lparr>assetsDownloaded := set_add b (assetsDownloaded s)\<rparr>, obj_assign b lp m)"
  using assms by (simp add: download_asset_def downloadAndSave_exists set_add_def)

text \<open>
  Claim C10, as worded, fails in its last part where the query of one variant is the
  beginning of the other's. Both \<open>https://example.test/app/img/a.png?x=1\<close> and
  \<open>https://example.test/app/img/a.png?x=12\<close> have the local path of \<open>a.png\<close>, but the
  replacement of the first key takes the beginning of the second reference, which is
  saved as \<open>img/a.png2\<close> and not as the path of the shared file.
\<close>

theorem query_variant_prefix_counterexample:
  "urlToLocalPath (ex_env ex_net (\<lambda>u. None) 5) ''https://example.test/app/img/a.png?x=1''
     = Some ''/srv/rendered-site/app/img/a.png''
   \<and> urlToLocalPath (ex_env ex_net (\<lambda>u. None) 5) ''https://example.test/app/img/a.png?x=12''
     = Some ''/srv/rendered-site/app/img/a.png''
   \<and> makeRelativeForHtml ''/srv/rendered-site/app/index.html'' ''/srv/rendered-site/app/img/a.png''
     = ''img/a.png''
   \<and> rewrite_html (ex_env ex_net (\<lambda>u. None) 5) ''/srv/rendered-site/app/index.html''
       [(''https://example.test/app/img/a.png?x=1'', ''/srv/rendered-site/app/img/a.png''),
        (''https://example.test/app/img/a.png?x=12'', ''/srv/rendered-site/app/img/a.png'')]
       ''<img src=https://example.test/app/img/a.png?x=1><img src=https://example.test/app/img/a.png?x=12>''
     = Some ''<img src=img/a.png><img src=img/a.png2>''"
  by code_simp

text \<open>
  Claim C10, amended. Two URLs that parse and whose decoded paths are the same, with an
  extension (as line 56 reads it), have the same local path whatever their query strings,
  the one of the path alone. Once the file of one variant is on the disk (as it is after
  a successful \<open>downloadAndSave\<close>), the asset loop takes the other variant without a fetch
  or a write, and \<open>urlToLocal\<close> sends both URLs to that one file. Where both are keys of
  the map with that file and the replacement is exact (the page is cut at delimiters into
  keys and strings without keys, and no key occurs in a key behind it, so neither variant
  is the beginning of the other), the loop of lines 236 to 247 rewrites the references to
  both variants to the one relative path of the shared file.
\<close>

theorem extension_shares_file:
  assumes "new_URL e a None = Some ua" and "new_URL e b None = Some ub"
    and "decodeURIComponent e (pathname ua) = Some d"
    and "decodeURIComponent e (pathname ub) = Some d"
    and "posix_extname (stem d) \<noteq> []"
  shows "urlToLocalPath e a = Some (posix_join (OUTPUT_DIR e) (stem d))
    \<and> urlToLocalPath e b = Some (posix_join (OUTPUT_DIR e) (stem d))
    \<and> (downloadAndSave e a (posix_join (OUTPUT_DIR e) (stem d)) s0 = (True, s)
          \<longrightarrow> existsSync (disk s) (posix_join (OUTPUT_DIR e) (stem d)))
    \<and> (existsSync (disk s) (posix_join (OUTPUT_DIR e) (stem d)) \<longrightarrow> b \<noteq> [] \<longrightarrow> \<not> prefix ''data:'' b \<longrightarrow>
          download_asset e b (s, m)
            = (s\<lparr>assetsDownloaded := set_add b (assetsDownloaded s)\<rparr>,
               obj_assign b (posix_join (OUTPUT_DIR e) (stem d)) m)
          \<and> map_of (obj_assign b (posix_join (OUTPUT_DIR e) (stem d)) m) b
              = Some (posix_join (OUTPUT_DIR e) (stem d))
          \<and> (map_of m a = Some (posix_join (OUTPUT_DIR e) (stem d)) \<longrightarrow>
               map_of (obj_assign b (posix_join (OUTPUT_DIR e) (stem d)) m) a
                 = Some (posix_join (OUTPUT_DIR e) (stem d))))
    \<and> (rewritable e D htmlFilePath entries (f0 # map snd rest) \<longrightarrow> (\<forall>(c, f)\<in>set rest. D c) \<longrightarrow>
        (a, posix_join (OUTPUT_DIR e) (stem d)) \<in> set entries \<longrightarrow>
        (b, posix_join (OUTPUT_DIR e) (stem d)) \<in> set entries \<longrightarrow>
          rewrite_html e htmlFilePath entries (join_pieces f0 rest)
            = Some (join_pieces (rewritten_piece htmlFilePath entries f0)
                      (map_pieces (rewritten_piece htmlFilePath entries) rest))
          \<and> rewritten_piece htmlFilePath entries a
              = makeRelativeForHtml htmlFilePath (posix_join (OUTPUT_DIR e) (stem d))
          \<and> rewritten_piece htmlFilePath entries b
              = makeRelativeForHtml htmlFilePath (posix_join (OUTPUT_DIR e) (stem d)))"
proof -
  let ?lp = "posix_join (OUTPUT_DIR e) (stem d)"
  have a: "urlToLocalPath e a = Some ?lp" and b: "urlToLocalPath e b = Some ?lp"
    using assms by (simp_all add: urlToLocalPath_stem)
  have c: "downloadAndSave e a ?lp s0 = (True, s) \<longrightarrow> existsSync (disk s) ?lp"
    using downloadAndSave_True_exists by blast
  have d: "download_asset e b (s, m) = (s\<lparr>assetsDownloaded := set_add b (assetsDownloaded s)\<rparr>, obj_assign b ?lp m)"
    if "existsSync (disk s) ?lp" "b \<noteq> []" "\<not> prefix ''data:'' b"
    using download_asset_exists[OF assms(2) b posix_join_not_Nil that(2,3,1)] .
  have f: "map_of (obj_assign b ?lp m) b = Some ?lp"
    "map_of m a = Some ?lp \<longrightarrow> map_of (obj_assign b ?lp m) a = Some ?lp"
    by (simp_all add: map_of_obj_assign)
  have g: "rewrite_html e htmlFilePath entries (join_pieces f0 rest)
            = Some (join_pieces (rewritten_piece htmlFilePath entries f0)
                      (map_pieces (rewritten_piece htmlFilePath entries) rest))"
    if "rewritable e D htmlFilePath entries (f0 # map snd rest)" "\<forall>(c, f)\<in>set rest. D c"
    using that by (rule rewrite_pieces)
  have h: "rewritten_piece htmlFilePath entries k = makeRelativeForHtml htmlFilePath ?lp"
    if "rewritable e D htmlFilePath entries (f0 # map snd rest)" "(k, ?lp) \<in> set entries" for k
  proof -
    from that(1) have "ordered_keys e entries" by (simp add: rewritable_def)
    then show ?thesis using that(2) by (rule rewritten_piece_key)
  qed
  from a b c d f g h show ?thesis by blast
qed

text \<open>
  The theorem at the image of the example site with \<open>?v=1\<close> and with \<open>?v=2\<close>: both
  references are saved as \<open>img/a.png\<close>.
\<close>

theorem extension_shares_file_witness:
  "urlToLocalPath (ex_env ex_net (\<lambda>u. None) 5) ''https://example.test/app/img/a.png?v=1''
     = Some ''/srv/rendered-site/app/img/a.png''
   \<and> urlToLocalPath (ex_env ex_net (\<lambda>u. None) 5) ''https://example.test/app/img/a.png?v=2''
     = Some ''/srv/rendered-site/app/img/a.png''
   \<and> download_asset (ex_env ex_net (\<lambda>u. None) 5) ''https://example.test/app/img/a.png?v=2''
       (image_saved, [(''https://example.test/app/img/a.png?v=1'', ''/srv/rendered-site/app/img/a.png'')])
     = (image_saved\<lparr>assetsDownloaded :=
          [''https://example.test/app/img/a.png'', ''https://example.test/app/img/a.png?v=2'']\<rparr>,
        [(''https://example.test/app/img/a.png?v=1'', ''/srv/rendered-site/app/img/a.png''),
         (''https://example.test/app/img/a.png?v=2'', ''/srv/rendered-site/app/img/a.png'')])
   \<and> rewrite_html (ex_env ex_net (\<lambda>u. None) 5) ''/srv/rendered-site/app/index.html''
        [(''https://example.test/app/img/a.png?v=1'', ''/srv/rendered-site/app/img/a.png''),
         (''https://example.test/app/img/a.png?v=2'', ''/srv/rendered-site/app/img/a.png'')]
        (join_pieces ''<img src=''
           [(CHR 0x22, ''https://example.test/app/img/a.png?v=1''), (CHR 0x22, ''><img src=''),
            (CHR 0x22, ''https://example.test/app/img/a.png?v=2''), (CHR 0x22, ''>'')])
     = Some (join_pieces ''<img src=''
           [(CHR 0x22, ''img/a.png''), (CHR 0x22, ''><img src=''),
            (CHR 0x22, ''img/a.png''), (CHR 0x22, ''>'')])"
proof -
  let ?e = "ex_env ex_net (\<lambda>u. None) 5"
  let ?a = "''https://example.test/app/img/a.png?v=1''"
  let ?b = "''https://example.test/app/img/a.png?v=2''"
  let ?ua = "\<lparr>protocol = ''https:'', has_authority = True, userinfo = [], hostname = ''example.test'',
               port = [], pathname = ''/app/img/a.png'', opaque_path = False, query = Some ''v=1'', fragment = None\<rparr>"
  let ?ub = "\<lparr>protocol = ''https:'', has_authority = True, userinfo = [], hostname = ''example.test'',
               port = [], pathname = ''/app/img/a.png'', opaque_path = False, query = Some ''v=2'', fragment = None\<rparr>"
  let ?hp = "''/srv/rendered-site/app/index.html''"
  let ?lp = "''/srv/rendered-site/app/img/a.png''"
  let ?entries = "[(?a, ?lp), (?b, ?lp)]"
  let ?f0 = "''<img src=''"
  let ?rest = "[(CHR 0x22, ?a), (CHR 0x22, ''><img src=''), (CHR 0x22, ?b), (CHR 0x22, ''>'')]"
  have 1: "new_URL ?e ?a None = Some ?ua" by code_simp
  have 2: "new_URL ?e ?b None = Some ?ub" by code_simp
  have 3: "decodeURIComponent ?e (pathname ?ua) = Some ''/app/img/a.png''" by (simp add: ex_env_def)
  have 4: "decodeURIComponent ?e (pathname ?ub) = Some ''/app/img/a.png''" by (simp add: ex_env_def)
  have 5: "posix_extname (stem ''/app/img/a.png'') \<noteq> []" by code_simp
  have lp: "posix_join (OUTPUT_DIR ?e) (stem ''/app/img/a.png'') = ?lp"
    by code_simp
  have ex: "existsSync (disk image_saved) ?lp"
    by (simp add: image_saved_def existsSync_def)
  have nd: "?b \<noteq> []" "\<not> prefix ''data:'' ?b" by simp_all
  have sa: "set_add ?b (assetsDownloaded image_saved) = [''https://example.test/app/img/a.png'', ?b]"
    by (simp add: image_saved_def set_add_def)
  have oa: "obj_assign ?b ?lp [(?a, ?lp)] = ?entries" by code_simp
  have rw: "rewritable ?e quote ?hp ?entries (?f0 # map snd ?rest)" by code_simp
  have dl: "\<forall>(c, f)\<in>set ?rest. quote c" by code_simp
  have mem: "(?a, ?lp) \<in> set ?entries" "(?b, ?lp) \<in> set ?entries" by simp_all
  have rel: "makeRelativeForHtml ?hp ?lp = ''img/a.png''" by code_simp
  have g: "join_pieces (rewritten_piece ?hp ?entries ?f0) (map_pieces (rewritten_piece ?hp ?entries) ?rest)
      = join_pieces ''<img src=''
           [(CHR 0x22, ''img/a.png''), (CHR 0x22, ''><img src=''),
            (CHR 0x22, ''img/a.png''), (CHR 0x22, ''>'')]" by code_simp
  from extension_shares_file[OF 1 2 3 4 5, of _ image_saved "[(?a, ?lp)]" quote ?hp ?entries ?f0 ?rest]
    ex nd rw dl mem
  show ?thesis unfolding lp sa oa g by simp
qed

section \<open>The scan of a style sheet\<close>

text \<open>
  Downloads only add to the disk: what is fetched is appended to the record of fetches,
  files and directories stay, and a new file holds the bytes that were fetched for it.
\<close>

lemma grown_refl: "grown e [] s s"
  by (simp add: grown_def)

lemma grown_trans:
  assumes "grown e n1 s s1" and "grown e n2 s1 s2"
  shows "grown e (n1 @ n2) s s2"
proof -
  have f: "fetched s2 = fetched s @ n1 @ n2" using assms by (simp add: grown_def)
  have d: "dirs (disk s) \<subseteq> dirs (disk s2)" using assms by (auto simp: grown_def)
  have k: "files (disk s2) p = Some x \<and> (p \<in> dirs (disk s2) \<longrightarrow> p \<in> dirs (disk s))"
    if "files (disk s) p = Some x" for p x
    using assms that unfolding grown_def by blast
  have n: "\<exists>a\<in>set (n1 @ n2). fetched_verbatim e a p x"
    if "files (disk s) p = None" "files (disk s2) p = Some x" for p x
  proof (cases "files (disk s1) p")
    case None
    with assms(2) that(2) have "\<exists>a\<in>set n2. fetched_verbatim e a p x" unfolding grown_def by blast
    then show ?thesis by auto
  next
    case (Some y)
    with assms(2) that(2) have "y = x" unfolding grown_def by fastforce
    with Some assms(1) that(1) have "\<exists>a\<in>set n1. fetched_verbatim e a p x" unfolding grown_def by blast
    then show ?thesis by auto
  qed
  from f d k n show ?thesis unfolding grown_def by blast
qed

lemma grown_assets: "grown e new s s' \<Longrightarrow> grown e new s (s'\<lparr>assetsDownloaded := x\<rparr>)"
  by (simp add: grown_def)


lemma grown_not_dir:
  "grown e new s s' \<Longrightarrow> files (disk s) p = Some x \<Longrightarrow> p \<notin> dirs (disk s) \<Longrightarrow> p \<notin> dirs (disk s')"
  by (auto simp: grown_def)

lemma grown_dirs: "grown e new s s' \<Longrightarrow> q \<in> dirs (disk s) \<Longrightarrow> q \<in> dirs (disk s')"
  by (auto simp: grown_def)


lemma downloadAndSave_grown:
  assumes "urlToLocalPath e a = Some lp" and "downloadAndSave e a lp s = (b, s')"
  shows "\<exists>new. set new \<subseteq> {a} \<and> grown e new s s'"
proof (cases "a = [] \<or> lp = [] \<or> prefix ''data:'' a \<or> existsSync (disk s) lp")
  case True
  then have "s' = s" using assms(2) by (auto simp: downloadAndSave_def split: if_splits)
  then show ?thesis using grown_refl[of e s] by (intro exI[of _ "[]"]) simp
next
  case False
  then have nx: "files (disk s) lp = None" by (simp add: existsSync_def)
  let ?s = "s\<lparr>fetched := fetched s @ [a]\<rparr>"
  have g0: "grown e [a] s ?s" by (simp add: grown_def)
  have mk: "grown e [a] s (?s\<lparr>disk := d\<rparr>)" if "ensureDir (disk s) lp = Some d" for d
    using that by (auto simp: grown_def ensureDir_def mkdirSync_recursive_def split: if_splits)
  have wr: "grown e [a] s (?s\<lparr>disk := d'\<rparr>)"
    if "ensureDir (disk s) lp = Some d" "writeFileSync d lp x = Some d'"
       "fetchImpl e a = Some res" "ok res" "arrayBuffer res = Some x" for d d' res x
  proof -
    have fv: "fetched_verbatim e a lp x" using that assms(1) by (simp add: fetched_verbatim_def)
    have d': "d' = d\<lparr>files := (files d)(lp \<mapsto> x)\<rparr>"
      using that(2) by (auto simp: writeFileSync_def split: if_splits)
    have d: "files d = files (disk s)" "dirs (disk s) \<subseteq> dirs d"
      "\<forall>p y. files (disk s) p = Some y \<longrightarrow> p \<in> dirs d \<longrightarrow> p \<in> dirs (disk s)"
      using that(1) by (auto simp: ensureDir_def mkdirSync_recursive_def split: if_splits)
    show ?thesis unfolding grown_def d'
      using d nx fv by auto
  qed
  from False assms(2) g0 mk wr have "grown e [a] s s'"
    by (auto simp: downloadAndSave_def Let_def split: option.splits if_splits)
  then show ?thesis by (intro exI[of _ "[a]"]) simp
qed

lemma css_ref_grown:
  assumes "css_ref e cu cl (m0, r) (s, m, ct) = (s', m', ct')"
  shows "\<exists>new. (\<forall>a\<in>set new. \<exists>u. new_URL e r (Some cu) = Some u \<and> href u = a) \<and> grown e new s s'"
proof (cases rule: css_ref_cases[of e cu cl m0 r s m ct])
  case skip
  with assms have "s' = s" by simp
  then show ?thesis using grown_refl[of e s] by (intro exI[of _ "[]"]) simp
next
  case (known u lf)
  with assms have "s' = s" by simp
  then show ?thesis using grown_refl[of e s] by (intro exI[of _ "[]"]) simp
next
  case (failed u lf s1)
  with assms have s': "s' = s1" by simp
  from downloadAndSave_grown[OF failed(4,5)] obtain new where "set new \<subseteq> {href u}" "grown e new s s1"
    by blast
  then show ?thesis using failed(2) s' by (intro exI[of _ new]) auto
next
  case (saved u lf s1)
  with assms have s': "s' = s1\<lparr>assetsDownloaded := set_add (href u) (assetsDownloaded s1)\<rparr>" by simp
  from downloadAndSave_grown[OF saved(4,5)] obtain new where "set new \<subseteq> {href u}" "grown e new s s1"
    by blast
  then show ?thesis using saved(2) s' grown_assets by (intro exI[of _ new]) auto
qed

lemma css_refs_grown:
  "css_refs e cu cl ms (s, m, ct) = (s', m', ct') \<Longrightarrow>
   \<exists>new. (\<forall>a\<in>set new. \<exists>(m0, r)\<in>set ms. \<exists>u. new_URL e r (Some cu) = Some u \<and> href u = a)
         \<and> grown e new s s'"
proof (induction ms arbitrary: s m ct)
  case Nil
  then have "s' = s" by simp
  then show ?case using grown_refl[of e s] by (intro exI[of _ "[]"]) simp
next
  case (Cons x ms)
  obtain m0 r where x: "x = (m0, r)" by (cases x)
  obtain s1 m1 ct1 where 1: "css_ref e cu cl (m0, r) (s, m, ct) = (s1, m1, ct1)"
    by (cases "css_ref e cu cl (m0, r) (s, m, ct)")
  with Cons.prems x have 2: "css_refs e cu cl ms (s1, m1, ct1) = (s', m', ct')" by simp
  from css_ref_grown[OF 1] obtain n1 where
    n1: "\<forall>a\<in>set n1. \<exists>u. new_URL e r (Some cu) = Some u \<and> href u = a" "grown e n1 s s1" by blast
  from Cons.IH[OF 2] obtain n2 where
    n2: "\<forall>a\<in>set n2. \<exists>(m0, r)\<in>set ms. \<exists>u. new_URL e r (Some cu) = Some u \<and> href u = a"
        "grown e n2 s1 s'" by blast
  have g: "grown e (n1 @ n2) s s'" using n1(2) n2(2) by (rule grown_trans)
  have "\<forall>a\<in>set (n1 @ n2). \<exists>(m0, r)\<in>set (x # ms). \<exists>u. new_URL e r (Some cu) = Some u \<and> href u = a"
    using n1(1) n2(1) x by fastforce
  with g show ?case by blast
qed

lemma urlToLocalPath_not_Nil: "urlToLocalPath e a = Some lp \<Longrightarrow> lp \<noteq> []"
  by (auto simp: urlToLocalPath_stem posix_join_not_Nil split: option.splits)

lemma css_refs_result:
  obtains s1 m1 ct1 new where "css_refs e cu cl ms (s, m, ct) = (s1, m1, ct1)"
    and "\<forall>a\<in>set new. \<exists>(m0, r)\<in>set ms. \<exists>u. new_URL e r (Some cu) = Some u \<and> href u = a"
    and "grown e new s s1"
proof -
  obtain s1 m1 ct1 where r: "css_refs e cu cl ms (s, m, ct) = (s1, m1, ct1)"
    by (cases "css_refs e cu cl ms (s, m, ct)")
  from css_refs_grown[OF r] obtain new where
    "\<forall>a\<in>set new. \<exists>(m0, r)\<in>set ms. \<exists>u. new_URL e r (Some cu) = Some u \<and> href u = a" "grown e new s s1"
    by blast
  with r that show ?thesis by blast
qed

lemma scan_css_saves:
  assumes "map_of m cssUrl = Some cssLocal"
    and "readFileSync (disk s) cssLocal = Some bytes"
    and "cssLocal \<notin> dirs (disk s)"
    and "posix_dirname cssLocal = ''/'' \<or> posix_dirname cssLocal \<in> dirs (disk s)"
  shows "files (disk (fst (scan_css e cssUrl (s, m)))) cssLocal
         = Some (snd (snd (css_refs e cssUrl cssLocal (matchAll_url 0 (toString_utf8 e bytes))
                             (s, m, toString_utf8 e bytes))))"
proof -
  let ?ct = "toString_utf8 e bytes"
  obtain s1 m1 ct1 new where r: "css_refs e cssUrl cssLocal (matchAll_url 0 ?ct) (s, m, ?ct) = (s1, m1, ct1)"
    and g: "grown e new s s1"
    by (rule css_refs_result)
  have f: "files (disk s) cssLocal = Some bytes" using assms(2) by (simp add: readFileSync_def)
  have nd: "cssLocal \<notin> dirs (disk s1)" using g f assms(3) by (rule grown_not_dir)
  have pd: "posix_dirname cssLocal = ''/'' \<or> posix_dirname cssLocal \<in> dirs (disk s1)"
    using assms(4) grown_dirs[OF g] by blast
  have w: "writeFileSync (disk s1) cssLocal ct1 = Some ((disk s1)\<lparr>files := (files (disk s1))(cssLocal \<mapsto> ct1)\<rparr>)"
    using nd pd by (auto simp: writeFileSync_def)
  have "scan_css e cssUrl (s, m)
          = (s1\<lparr>disk := (disk s1)\<lparr>files := (files (disk s1))(cssLocal \<mapsto> ct1)\<rparr>\<rparr>, m1)"
    using assms(1,2) r w by (simp add: scan_css_def Let_def)
  then show ?thesis using r by simp
qed

lemma pair_of_fst: "fst x = b \<Longrightarrow> x = (b, snd x)"
  by auto


text \<open>
  Claim C7, as worded, fails for a reference that is a \<open>data:\<close> URI. The sheet of the
  example has \<open>url(data:image/gif;base64,R0lG)\<close> among its matches; \<open>downloadAndSave\<close>
  refuses it, nothing is fetched for it, and the saved sheet still has the literal.
\<close>

theorem css_reference_counterexample:
  "(''url(data:image/gif;base64,R0lG)'', ''data:image/gif;base64,R0lG'')
     \<in> set (matchAll_url 0
         ''@import url(more.css);@font-face{src:url(fonts/x.woff)}i{background:url(data:image/gif;base64,R0lG)}'')
   \<and> files (disk styled_run) ''/srv/rendered-site/app/css/site.css''
       = Some (''@import url('' @ [CHR 0x22] @ ''more.css'' @ [CHR 0x22] @ '');@font-face{src:url('' @ [CHR 0x22]
               @ ''fonts/x.woff'' @ [CHR 0x22] @ '')}i{background:url(data:image/gif;base64,R0lG)}'')
   \<and> sublist ''url(data:image/gif;base64,R0lG)''
        (''@import url('' @ [CHR 0x22] @ ''more.css'' @ [CHR 0x22] @ '');@font-face{src:url('' @ [CHR 0x22]
               @ ''fonts/x.woff'' @ [CHR 0x22] @ '')}i{background:url(data:image/gif;base64,R0lG)}'')
   \<and> ''data:image/gif;base64,R0lG'' \<notin> set (fetched styled_run)"
  by code_simp

text \<open>
  Claim C7, amended. For a style sheet recorded in \<open>urlToLocal\<close> that is a regular file
  in an existing directory, the scan saves to that file the text that the matches of
  \<open>url(...)\<close>, taken in order, make of the text read. One match with a reference that is
  not empty and resolves against the URL of the sheet to a URL \<open>abs\<close> with a local path:
  where \<open>abs\<close> has not been downloaded and its download succeeds, \<open>abs\<close> is recorded and
  every occurrence of the literal \<open>m[0]\<close> in the text becomes \<open>url("rel")\<close>, \<open>rel\<close> being
  \<open>path.relative\<close> from the directory of the sheet to the local path; where the download
  fails, as it does for every \<open>data:\<close> URI, the text stays as it is; where \<open>abs\<close> has
  been downloaded and \<open>urlToLocal\<close> has its local path, the literal is replaced without
  a download. The relative path, joined to the directory of the sheet, is the local path.
\<close>

theorem css_reference_rewritten:
  assumes "map_of m cssUrl = Some cssLocal"
    and "readFileSync (disk s) cssLocal = Some bytes"
    and "cssLocal \<notin> dirs (disk s)"
    and "posix_dirname cssLocal = ''/'' \<or> posix_dirname cssLocal \<in> dirs (disk s)"
    and "resolved cssLocal"
  shows "files (disk (fst (scan_css e cssUrl (s, m)))) cssLocal
           = Some (snd (snd (css_refs e cssUrl cssLocal (matchAll_url 0 (toString_utf8 e bytes))
                               (s, m, toString_utf8 e bytes))))
    \<and> (ref \<noteq> [] \<longrightarrow> new_URL e ref (Some cssUrl) = Some u \<longrightarrow> urlToLocalPath e (href u) = Some localFull \<longrightarrow>
         (href u \<notin> set (assetsDownloaded s0) \<longrightarrow> downloadAndSave e (href u) localFull s0 = (True, s1) \<longrightarrow>
            css_ref e cssUrl cssLocal (m0, ref) (s0, m1, cssText)
              = (s1\<lparr>assetsDownloaded := set_add (href u) (assetsDownloaded s1)\<rparr>,
                 obj_assign (href u) localFull m1,
                 join_string (''url('' @ [CHR 0x22] @ posix_relative (posix_dirname cssLocal) localFull
                                @ [CHR 0x22] @ '')'')
                   (split_string m0 cssText)))
         \<and> (href u \<notin> set (assetsDownloaded s0) \<longrightarrow> downloadAndSave e (href u) localFull s0 = (False, s1) \<longrightarrow>
              css_ref e cssUrl cssLocal (m0, ref) (s0, m1, cssText) = (s1, m1, cssText))
         \<and> (href u \<notin> set (assetsDownloaded s0) \<longrightarrow> prefix ''data:'' (href u) \<longrightarrow>
              css_ref e cssUrl cssLocal (m0, ref) (s0, m1, cssText) = (s0, m1, cssText))
         \<and> (href u \<in> set (assetsDownloaded s0) \<longrightarrow> map_of m1 (href u) = Some localFull \<longrightarrow>
              css_ref e cssUrl cssLocal (m0, ref) (s0, m1, cssText)
                = (s0, m1,
                   join_string (''url('' @ [CHR 0x22] @ posix_relative (posix_dirname cssLocal) localFull
                                  @ [CHR 0x22] @ '')'')
                     (split_string m0 cssText)))
         \<and> posix_join (posix_dirname cssLocal) (posix_relative (posix_dirname cssLocal) localFull) = localFull)"
proof -
  have 0: "files (disk (fst (scan_css e cssUrl (s, m)))) cssLocal
           = Some (snd (snd (css_refs e cssUrl cssLocal (matchAll_url 0 (toString_utf8 e bytes))
                               (s, m, toString_utf8 e bytes))))"
    using assms(1-4) by (rule scan_css_saves)
  have sj: "join_with CHR ''/'' (split_on path_sep x) = x" for x by (simp add: path_sep_def)
  {
    assume a: "ref \<noteq> []" "new_URL e ref (Some cssUrl) = Some u" "urlToLocalPath e (href u) = Some localFull"
    have n: "localFull \<noteq> []" using a(3) by (rule urlToLocalPath_not_Nil)
    have 1: "href u \<notin> set (assetsDownloaded s0) \<longrightarrow> downloadAndSave e (href u) localFull s0 = (True, s1) \<longrightarrow>
            css_ref e cssUrl cssLocal (m0, ref) (s0, m1, cssText)
              = (s1\<lparr>assetsDownloaded := set_add (href u) (assetsDownloaded s1)\<rparr>,
                 obj_assign (href u) localFull m1,
                 join_string (''url('' @ [CHR 0x22] @ posix_relative (posix_dirname cssLocal) localFull
                                @ [CHR 0x22] @ '')'')
                   (split_string m0 cssText))"
      using a n by (simp add: css_ref_def css_rewrite_def Let_def sj)
    have 2: "href u \<notin> set (assetsDownloaded s0) \<longrightarrow> downloadAndSave e (href u) localFull s0 = (False, s1) \<longrightarrow>
            css_ref e cssUrl cssLocal (m0, ref) (s0, m1, cssText) = (s1, m1, cssText)"
      using a n by (simp add: css_ref_def Let_def)
    have 3: "href u \<notin> set (assetsDownloaded s0) \<longrightarrow> prefix ''data:'' (href u) \<longrightarrow>
            css_ref e cssUrl cssLocal (m0, ref) (s0, m1, cssText) = (s0, m1, cssText)"
      using a n by (simp add: css_ref_def Let_def downloadAndSave_data)
    have 4: "href u \<in> set (assetsDownloaded s0) \<longrightarrow> map_of m1 (href u) = Some localFull \<longrightarrow>
              css_ref e cssUrl cssLocal (m0, ref) (s0, m1, cssText)
                = (s0, m1,
                   join_string (''url('' @ [CHR 0x22] @ posix_relative (posix_dirname cssLocal) localFull
                                  @ [CHR 0x22] @ '')'')
                     (split_string m0 cssText))"
      using a n by (simp add: css_ref_def css_rewrite_def Let_def sj)
    have r: "resolved localFull" using a(3) by (rule urlToLocalPath_resolved)
    have 5: "posix_join (posix_dirname cssLocal) (posix_relative (posix_dirname cssLocal) localFull) = localFull"
      using relative_resolves_back[OF assms(5) r] by (simp add: makeRelativeForHtml_posix)
    note 1 2 3 4 5
  }
  with 0 show ?thesis by blast
qed

text \<open>
  The theorem at the sheet of the example and its reference \<open>url(fonts/x.woff)\<close>: the
  font is fetched from \<open>https://example.test/app/css/fonts/x.woff\<close>, the URL of the sheet
  being the base, and the literal is gone from the text.
\<close>

theorem css_reference_rewritten_witness:
  "files (disk (fst (scan_css (ex_env styled_net styled_browser 5) ''https://example.test/app/css/site.css''
        (sheet_saved, [(''https://example.test/app/css/site.css'', ''/srv/rendered-site/app/css/site.css'')]))))
      ''/srv/rendered-site/app/css/site.css''
     = Some (''@import url('' @ [CHR 0x22] @ ''more.css'' @ [CHR 0x22] @ '');@font-face{src:url('' @ [CHR 0x22]
               @ ''fonts/x.woff'' @ [CHR 0x22] @ '')}i{background:url(data:image/gif;base64,R0lG)}'')
   \<and> snd (snd (css_ref (ex_env styled_net styled_browser 5) ''https://example.test/app/css/site.css''
        ''/srv/rendered-site/app/css/site.css'' (''url(fonts/x.woff)'', ''fonts/x.woff'')
        (sheet_saved, [(''https://example.test/app/css/site.css'', ''/srv/rendered-site/app/css/site.css'')],
         ''@font-face{src:url(fonts/x.woff)}'')))
     = ''@font-face{src:url('' @ [CHR 0x22] @ ''fonts/x.woff'' @ [CHR 0x22] @ '')}''
   \<and> fetched (fst (css_ref (ex_env styled_net styled_browser 5) ''https://example.test/app/css/site.css''
        ''/srv/rendered-site/app/css/site.css'' (''url(fonts/x.woff)'', ''fonts/x.woff'')
        (sheet_saved, [(''https://example.test/app/css/site.css'', ''/srv/rendered-site/app/css/site.css'')],
         ''@font-face{src:url(fonts/x.woff)}'')))
     = [''https://example.test/app/css/site.css'', ''https://example.test/app/css/fonts/x.woff'']
   \<and> \<not> sublist ''url(fonts/x.woff)'' (''@font-face{src:url('' @ [CHR 0x22] @ ''fonts/x.woff'' @ [CHR 0x22] @ '')}'')
   \<and> posix_join (posix_dirname ''/srv/rendered-site/app/css/site.css'') ''fonts/x.woff''
     = ''/srv/rendered-site/app/css/fonts/x.woff''"
proof -
  let ?e = "ex_env styled_net styled_browser 5"
  let ?cu = "''https://example.test/app/css/site.css''"
  let ?cl = "''/srv/rendered-site/app/css/site.css''"
  let ?m = "[(?cu, ?cl)]"
  let ?bytes = "''@import url(more.css);@font-face{src:url(fonts/x.woff)}i{background:url(data:image/gif;base64,R0lG)}''"
  let ?u = "\<lparr>protocol = ''https:'', has_authority = True, userinfo = [], hostname = ''example.test'',
               port = [], pathname = ''/app/css/fonts/x.woff'', opaque_path = False, query = None, fragment = None\<rparr>"
  let ?lf = "''/srv/rendered-site/app/css/fonts/x.woff''"
  let ?s1 = "snd (downloadAndSave ?e (href ?u) ?lf sheet_saved)"
  let ?ct = "''@font-face{src:url(fonts/x.woff)}''"
  have 1: "map_of ?m ?cu = Some ?cl" by simp
  have 2: "readFileSync (disk sheet_saved) ?cl = Some ?bytes" by (simp add: sheet_saved_def readFileSync_def)
  have 3: "?cl \<notin> dirs (disk sheet_saved)" by (simp add: sheet_saved_def)
  have 4: "posix_dirname ?cl = ''/'' \<or> posix_dirname ?cl \<in> dirs (disk sheet_saved)" by code_simp
  have 5: "resolved ?cl" by code_simp
  have a: "''fonts/x.woff'' \<noteq> []" by simp
  have b: "new_URL ?e ''fonts/x.woff'' (Some ?cu) = Some ?u" by code_simp
  have c: "urlToLocalPath ?e (href ?u) = Some ?lf" by code_simp
  have d: "href ?u \<notin> set (assetsDownloaded sheet_saved)" by code_simp
  have f: "fst (downloadAndSave ?e (href ?u) ?lf sheet_saved) = True" by code_simp
  have g: "downloadAndSave ?e (href ?u) ?lf sheet_saved = (True, ?s1)"
    using f by (rule pair_of_fst)
  have r: "posix_relative (posix_dirname ?cl) ?lf = ''fonts/x.woff''" by code_simp
  have t: "join_string (''url('' @ [CHR 0x22] @ ''fonts/x.woff'' @ [CHR 0x22] @ '')'')
             (split_string ''url(fonts/x.woff)'' ?ct)
           = ''@font-face{src:url('' @ [CHR 0x22] @ ''fonts/x.woff'' @ [CHR 0x22] @ '')}''" by code_simp
  have z: "toString_utf8 ?e ?bytes = ?bytes" by (simp add: ex_env_def)
  have w: "snd (snd (css_refs ?e ?cu ?cl (matchAll_url 0 ?bytes) (sheet_saved, ?m, ?bytes)))
     = ''@import url('' @ [CHR 0x22] @ ''more.css'' @ [CHR 0x22] @ '');@font-face{src:url('' @ [CHR 0x22]
               @ ''fonts/x.woff'' @ [CHR 0x22] @ '')}i{background:url(data:image/gif;base64,R0lG)}''"
    by code_simp
  have h: "fetched ?s1 = [?cu, ''https://example.test/app/css/fonts/x.woff'']" by code_simp
  have n: "\<not> sublist ''url(fonts/x.woff)'' (''@font-face{src:url('' @ [CHR 0x22] @ ''fonts/x.woff'' @ [CHR 0x22] @ '')}'')"
    by code_simp
  from css_reference_rewritten[OF 1 2 3 4 5, of ?e "''fonts/x.woff''" ?u ?lf sheet_saved ?s1
      "''url(fonts/x.woff)''" ?m ?ct]
    a b c d g
  show ?thesis unfolding z w r t using h n by simp
qed




end
